theory Spec2Isabelle
  imports Complex_Main "HOL-Library.Signed_Division"
begin

section \<open>Machine numbers of the Go program\<close>

text \<open>
  The load generator \<^verbatim>\<open>main.go\<close> computes with three kinds of numbers: Go's \<^verbatim>\<open>int\<close>
  and \<^verbatim>\<open>int64\<close> (also \<^verbatim>\<open>time.Duration\<close>, a count of nanoseconds), and \<^verbatim>\<open>float64\<close>.
  Integers are modelled as \<open>int\<close> with the two's-complement wrap-around of a 64-bit
  platform written out; \<^verbatim>\<open>float64\<close> values as rationals rounded to 53 significant bits.
\<close>

subsection \<open>64-bit integers\<close>

definition is_int64 :: "int \<Rightarrow> bool" where
  "is_int64 x \<longleftrightarrow> - (2 ^ 63) \<le> x \<and> x < 2 ^ 63"

definition wrap64 :: "int \<Rightarrow> int" where
  "wrap64 x = (x + 2 ^ 63) mod 2 ^ 64 - 2 ^ 63"

text \<open>The helper \<^verbatim>\<open>func max(a, b int) int\<close> of \<^verbatim>\<open>main.go\<close>.\<close>

definition max_int :: "int \<Rightarrow> int \<Rightarrow> int" where
  "max_int a b = (if a > b then a else b)"

subsection \<open>Rounding to binary64\<close>

text \<open>
  \<open>bitlen n\<close> is the number of binary digits of a positive integer, \<open>ilog2 x\<close> the
  exponent \<open>e\<close> of a positive rational with \<open>2\<^sup>e \<le> x < 2\<^sup>e\<^sup>+\<^sup>1\<close>, \<open>rhe\<close> rounds to the
  nearest integer with ties to the even one, and \<open>fl\<close> rounds a rational to the nearest
  number with a 53-bit significand, ties to even: the rounding every \<^verbatim>\<open>float64\<close>
  operation and conversion of Go performs. The exponent is left unbounded: all values
  the program computes with have magnitudes between \<open>2\<^sup>-\<^sup>6\<^sup>4\<close> and \<open>2\<^sup>1\<^sup>2\<^sup>7\<close>, far inside the
  normal range of binary64, so neither overflow nor gradual underflow can occur.
\<close>

function bitlen :: "int \<Rightarrow> int" where
  "bitlen n = (if n \<le> 0 then 0 else 1 + bitlen (n div 2))"
  by pat_completeness auto
termination
  by (relation "measure nat") auto

declare bitlen.simps [simp del]

definition ilog2 :: "rat \<Rightarrow> int" where
  "ilog2 x = (let (a, b) = quotient_of x;
                  k = bitlen a - bitlen b
              in if 2 powi k \<le> x then k else k - 1)"

definition rhe :: "rat \<Rightarrow> int" where
  "rhe x = (let f = \<lfloor>x\<rfloor>; r = x - of_int f
            in if r < 1 / 2 then f
               else if 1 / 2 < r then f + 1
               else if even f then f else f + 1)"

definition fl :: "rat \<Rightarrow> rat" where
  "fl x = (if x = 0 then 0
           else let u = 2 powi (ilog2 \<bar>x\<bar> - 52)
                in sgn x * (of_int (rhe (\<bar>x\<bar> / u)) * u))"

subsection \<open>The type float64\<close>

text \<open>
  A \<^verbatim>\<open>float64\<close> is a finite number, an infinity or a NaN. The two zeros are identified:
  their sign is observable only through a division by zero, and every divisor in the
  program is the conversion of an integer or a sum that starts with one, neither of
  which is ever the negative zero.
\<close>

datatype float64 = Fin rat | PInf | NInf | NaN

text \<open>The conversion \<^verbatim>\<open>float64(x)\<close> of an integer.\<close>

definition float64_of_int :: "int \<Rightarrow> float64" where
  "float64_of_int x = Fin (fl (of_int x))"

text \<open>A constant such as \<^verbatim>\<open>1.0\<close> or \<^verbatim>\<open>1e9\<close>.\<close>

definition float64_const :: "rat \<Rightarrow> float64" where
  "float64_const c = Fin (fl c)"

text \<open>The sign of a number; a NaN has none and is handled before its sign is asked for.\<close>

fun fsgn :: "float64 \<Rightarrow> rat" where
  "fsgn (Fin a) = sgn a"
| "fsgn PInf = 1"
| "fsgn NInf = - 1"
| "fsgn NaN = 0"

definition inf_of_sign :: "rat \<Rightarrow> float64" where
  "inf_of_sign s = (if s = 0 then NaN else if 0 < s then PInf else NInf)"

text \<open>
  IEEE 754 division: a finite quotient is rounded; a nonzero number over zero is an
  infinity, zero over zero and infinity over infinity are NaN.
\<close>

fun fdiv :: "float64 \<Rightarrow> float64 \<Rightarrow> float64" where
  "fdiv (Fin a) (Fin b) = (if b = 0 then inf_of_sign a else Fin (fl (a / b)))"
| "fdiv NaN _ = NaN"
| "fdiv _ NaN = NaN"
| "fdiv (Fin a) _ = Fin 0"
| "fdiv x (Fin b) = (if b < 0 then inf_of_sign (- fsgn x) else x)"
| "fdiv _ _ = NaN"

text \<open>IEEE 754 multiplication: zero times infinity is NaN.\<close>

fun fmul :: "float64 \<Rightarrow> float64 \<Rightarrow> float64" where
  "fmul (Fin a) (Fin b) = Fin (fl (a * b))"
| "fmul NaN _ = NaN"
| "fmul _ NaN = NaN"
| "fmul x y = inf_of_sign (fsgn x * fsgn y)"

text \<open>IEEE 754 addition: infinities of opposite sign add to NaN.\<close>

fun fadd :: "float64 \<Rightarrow> float64 \<Rightarrow> float64" where
  "fadd (Fin a) (Fin b) = Fin (fl (a + b))"
| "fadd NaN _ = NaN"
| "fadd _ NaN = NaN"
| "fadd (Fin a) y = y"
| "fadd x (Fin b) = x"
| "fadd x y = (if x = y then x else NaN)"

text \<open>The comparison \<^verbatim>\<open>x > y\<close>, false whenever an operand is NaN.\<close>

fun fgt :: "float64 \<Rightarrow> float64 \<Rightarrow> bool" where
  "fgt (Fin a) (Fin b) \<longleftrightarrow> b < a"
| "fgt NaN _ \<longleftrightarrow> False"
| "fgt _ NaN \<longleftrightarrow> False"
| "fgt PInf y \<longleftrightarrow> y \<noteq> PInf"
| "fgt x NInf \<longleftrightarrow> x \<noteq> NInf"
| "fgt _ _ \<longleftrightarrow> False"

text \<open>
  The conversion \<^verbatim>\<open>int(f)\<close> discards the fraction. When the value does not fit the
  integer type the Go specification leaves the result to the implementation:
  that case is \<open>None\<close>.
\<close>

definition trunc :: "rat \<Rightarrow> int" where
  "trunc x = (if 0 \<le> x then \<lfloor>x\<rfloor> else \<lceil>x\<rceil>)"

fun int_of_float64 :: "float64 \<Rightarrow> int option" where
  "int_of_float64 (Fin a) = (if is_int64 (trunc a) then Some (trunc a) else None)"
| "int_of_float64 _ = None"

section \<open>The ramp-up scheduler\<close>

text \<open>
  \<^verbatim>\<open>calculateDynamicLoad(elapsed, totalDuration, maxWorkers, maxBatchSize)\<close> of
  \<^verbatim>\<open>main.go\<close>. Durations are nanosecond counts. The division by ten is Go's
  truncating integer division.
\<close>

definition ramp_progress :: "int \<Rightarrow> int \<Rightarrow> float64" where
  "ramp_progress elapsed totalDuration =
     (let progress = fdiv (float64_of_int elapsed) (float64_of_int totalDuration)
      in if fgt progress (float64_const 1) then float64_const 1 else progress)"

definition ramp_value :: "int \<Rightarrow> int \<Rightarrow> float64 \<Rightarrow> int option" where
  "ramp_value start maxv progress =
     (case int_of_float64 (fmul (float64_of_int (wrap64 (maxv - start))) progress) of
        None \<Rightarrow> None
      | Some k \<Rightarrow> Some (wrap64 (start + k)))"

definition calculateDynamicLoad :: "int \<Rightarrow> int \<Rightarrow> int \<Rightarrow> int \<Rightarrow> (int \<times> int) option" where
  "calculateDynamicLoad elapsed totalDuration maxWorkers maxBatchSize =
     (if elapsed \<ge> totalDuration then Some (maxWorkers, maxBatchSize)
      else
        let progress = ramp_progress elapsed totalDuration;
            startWorkers = max_int 1 (maxWorkers sdiv 10);
            startBatchSize = max_int 100 (maxBatchSize sdiv 10)
        in case ramp_value startWorkers maxWorkers progress of
             None \<Rightarrow> None
           | Some currentWorkers \<Rightarrow>
               (case ramp_value startBatchSize maxBatchSize progress of
                  None \<Rightarrow> None
                | Some currentBatchSize \<Rightarrow> Some (currentWorkers, currentBatchSize)))"

section \<open>The pressure profile resolver\<close>

text \<open>
  The \<^verbatim>\<open>switch *pressure\<close> of \<^verbatim>\<open>main\<close>: it compares the flag's string with four
  lower-case literals and falls through to the medium profile.
\<close>

record profile =
  pressureLevel :: string
  numConcurrentGoroutines :: int
  batchSize :: int

definition resolve_pressure :: "string \<Rightarrow> profile" where
  "resolve_pressure pressure =
     (if pressure = ''low'' then
        \<lparr>pressureLevel = ''LOW'', numConcurrentGoroutines = 5, batchSize = 500\<rparr>
      else if pressure = ''medium'' then
        \<lparr>pressureLevel = ''MEDIUM'', numConcurrentGoroutines = 20, batchSize = 2000\<rparr>
      else if pressure = ''high'' then
        \<lparr>pressureLevel = ''HIGH'', numConcurrentGoroutines = 50, batchSize = 5000\<rparr>
      else if pressure = ''extreme'' then
        \<lparr>pressureLevel = ''EXTREME'', numConcurrentGoroutines = 100, batchSize = 10000\<rparr>
      else
        \<lparr>pressureLevel = ''MEDIUM (default)'', numConcurrentGoroutines = 20, batchSize = 2000\<rparr>)"

text \<open>
  The resolver as the specification words it (section 4.1): the level name is matched
  without regard to case, and an unrecognised or absent level resolves to the medium
  default. It is compared with \<open>resolve_pressure\<close> below.
\<close>

definition ascii_lower :: "char \<Rightarrow> char" where
  "ascii_lower c =
     (if (65 :: nat) \<le> of_char c \<and> of_char c \<le> (90 :: nat)
      then char_of (of_char c + (32 :: nat)) else c)"

definition spec_resolve_pressure :: "string \<Rightarrow> int \<times> int" where
  "spec_resolve_pressure level =
     (let l = map ascii_lower level
      in if l = ''low'' then (5, 500)
         else if l = ''medium'' then (20, 2000)
         else if l = ''high'' then (50, 5000)
         else if l = ''extreme'' then (100, 10000)
         else (20, 2000))"

text \<open>The command-line flags, \<^verbatim>\<open>--duration\<close> in nanoseconds.\<close>

record flags =
  milvusAddr :: string
  duration :: int
  pressure :: string
  rampUp :: bool
  realTime :: bool
  showHelp :: bool

section \<open>Throughput\<close>

text \<open>
  \<^verbatim>\<open>Duration.Seconds\<close> of Go's standard library, which \<^verbatim>\<open>main\<close> calls on the
  elapsed time of a phase:
  \<^verbatim>\<open>sec := d / Second; nsec := d % Second; return float64(sec) + float64(nsec)/1e9\<close>.
\<close>

definition seconds :: "int \<Rightarrow> float64" where
  "seconds d = fadd (float64_of_int (d sdiv 1000000000))
                    (fdiv (float64_of_int (d smod 1000000000)) (float64_const 1000000000))"

text \<open>
  The expression \<^verbatim>\<open>float64(totalVectorsInserted) / insertionTime.Seconds()\<close>, and the
  same for the searches: the division is not guarded.
\<close>

definition per_second :: "int \<Rightarrow> int \<Rightarrow> float64" where
  "per_second totalOps elapsed = fdiv (float64_of_int totalOps) (seconds elapsed)"

section \<open>The workers of a phase\<close>

text \<open>
  What a worker goroutine observes from outside in one pass through its loop: the
  clock it reads for the loop test, the clock it reads for the ramp, and the outcome of
  the call to the service. Clock readings are nanoseconds since the start of the phase,
  so that \<^verbatim>\<open>time.Now().Before(testEndTime)\<close> is \<open>ob_now < duration\<close>.
\<close>

datatype call_result = Ok | Err string

record observation =
  ob_now :: int
  ob_since :: int
  ob_result :: call_result

datatype log_line = InsertFailed nat int string | SearchFailed nat int string

text \<open>
  The effects of a worker: the amounts it adds to the shared counter (one critical
  section each, in this order), the lines it logs, and its local count of batches.
\<close>

record worker_run =
  adds :: "int list"
  logged :: "log_line list"
  batchCount :: int

definition no_run :: worker_run where
  "no_run = \<lparr>adds = [], logged = [], batchCount = 0\<rparr>"

text \<open>
  A worker has returned, or its loop is still running when the observations end, or it
  has left the defined behaviour of the language: \<^verbatim>\<open>make\<close> panics on a negative length,
  and the ramp may convert a \<^verbatim>\<open>float64\<close> that does not fit an \<^verbatim>\<open>int\<close>.
\<close>

datatype worker_status = Running | Panicked | Returned worker_run

definition currentBatchSize :: "flags \<Rightarrow> profile \<Rightarrow> observation \<Rightarrow> int option" where
  "currentBatchSize f p ob =
     (if rampUp f then
        map_option snd (calculateDynamicLoad (ob_since ob) (duration f)
                          (numConcurrentGoroutines p) (batchSize p))
      else Some (batchSize p))"

text \<open>The loop of an insertion worker (step 4 of \<^verbatim>\<open>main\<close>).\<close>

fun insert_worker ::
  "flags \<Rightarrow> profile \<Rightarrow> nat \<Rightarrow> observation list \<Rightarrow> worker_run \<Rightarrow> worker_status" where
  "insert_worker f p goroutineID [] w = Running"
| "insert_worker f p goroutineID (ob # obs) w =
     (if \<not> ob_now ob < duration f then Returned w
      else case currentBatchSize f p ob of
        None \<Rightarrow> Panicked
      | Some n \<Rightarrow>
          if n < 0 then Panicked
          else (case ob_result ob of
            Err e \<Rightarrow>
              insert_worker f p goroutineID obs
                (w\<lparr>logged := logged w @ [InsertFailed goroutineID (batchCount w) e]\<rparr>)
          | Ok \<Rightarrow>
              insert_worker f p goroutineID obs
                (w\<lparr>adds := adds w @ [n], batchCount := batchCount w + 1\<rparr>)))"

text \<open>
  The loop of a search worker (step 7): one query per pass, counted when it succeeds.
  Its local \<^verbatim>\<open>searchCount\<close> is kept in the field \<open>batchCount\<close>.
\<close>

fun search_worker :: "int \<Rightarrow> nat \<Rightarrow> observation list \<Rightarrow> worker_run \<Rightarrow> worker_status" where
  "search_worker searchDuration goroutineID [] w = Running"
| "search_worker searchDuration goroutineID (ob # obs) w =
     (if \<not> ob_now ob < searchDuration then Returned w
      else case ob_result ob of
        Err e \<Rightarrow>
          search_worker searchDuration goroutineID obs
            (w\<lparr>logged := logged w @ [SearchFailed goroutineID (batchCount w) e]\<rparr>)
      | Ok \<Rightarrow>
          search_worker searchDuration goroutineID obs
            (w\<lparr>adds := adds w @ [1], batchCount := batchCount w + 1\<rparr>))"

section \<open>The shared counter\<close>

text \<open>
  The counter \<^verbatim>\<open>totalVectorsInserted\<close> (and \<^verbatim>\<open>totalSearchesPerformed\<close>) is the only
  variable the workers share. Each update is
  \<^verbatim>\<open>mu.Lock(); total += int64(n); mu.Unlock()\<close>, here in four steps of the goroutine:
  acquire the mutex, load the counter, store the sum, release. A schedule is the list
  of goroutine numbers in the order in which they take a step; a goroutine that waits
  for the mutex does not move. A worker never branches on the counter (the
  \<^verbatim>\<open>--real-time\<close> monitor reads it only to print it), so the passes of its loop are
  determined by its own observations and the pool below receives, for each goroutine,
  the amounts it adds in the order of its passes.
\<close>

datatype pc = Idle | Locked | Loaded int | Stored

record task =
  t_pc :: pc
  t_pending :: "int list"

record pool =
  counter :: int
  mu :: "nat option"
  tasks :: "task list"

definition pool_init :: "int list list \<Rightarrow> pool" where
  "pool_init addss =
     \<lparr>counter = 0, mu = None, tasks = map (\<lambda>as. \<lparr>t_pc = Idle, t_pending = as\<rparr>) addss\<rparr>"

definition pool_step :: "pool \<Rightarrow> nat \<Rightarrow> pool" where
  "pool_step s i =
     (if length (tasks s) \<le> i then s
      else
        let t = tasks s ! i in
        case t_pc t of
          Idle \<Rightarrow>
            (case t_pending t of
               [] \<Rightarrow> s
             | n # ns \<Rightarrow>
                 (case mu s of
                    None \<Rightarrow> s\<lparr>mu := Some i, tasks := (tasks s)[i := t\<lparr>t_pc := Locked\<rparr>]\<rparr>
                  | Some j \<Rightarrow> s))
        | Locked \<Rightarrow> s\<lparr>tasks := (tasks s)[i := t\<lparr>t_pc := Loaded (counter s)\<rparr>]\<rparr>
        | Loaded v \<Rightarrow>
            (case t_pending t of
               [] \<Rightarrow> s
             | n # ns \<Rightarrow>
                 s\<lparr>counter := wrap64 (v + n),
                   tasks := (tasks s)[i := t\<lparr>t_pc := Stored, t_pending := ns\<rparr>]\<rparr>)
        | Stored \<Rightarrow> s\<lparr>mu := None, tasks := (tasks s)[i := t\<lparr>t_pc := Idle\<rparr>]\<rparr>)"

definition pool_run :: "nat list \<Rightarrow> pool \<Rightarrow> pool" where
  "pool_run sched s = foldl pool_step s sched"

definition task_done :: "task \<Rightarrow> bool" where
  "task_done t \<longleftrightarrow> t_pc t = Idle \<and> t_pending t = []"

definition pool_done :: "pool \<Rightarrow> bool" where
  "pool_done s \<longleftrightarrow> list_all task_done (tasks s)"

section \<open>A phase: the workers and the join\<close>

text \<open>
  What a completed phase leaves behind: the counter, and the lines written with
  \<^verbatim>\<open>log.Printf\<close>. Every goroutine writes its lines as its failures happen, so the lines
  of different goroutines interleave on standard error in an order that the
  observations do not determine: \<open>logs\<close> keeps one list for each goroutine, with the
  lines of that goroutine in the order it wrote them, and says nothing about the order
  between goroutines.
\<close>

datatype 'a phase = Blocked | Crashed | Completed 'a

record phase_result =
  total :: int
  logs :: "log_line list list"

fun returned :: "worker_status \<Rightarrow> worker_run option" where
  "returned (Returned w) = Some w"
| "returned _ = None"

definition obs_of :: "observation list list \<Rightarrow> nat \<Rightarrow> observation list" where
  "obs_of obss i = (if i < length obss then obss ! i else [])"

text \<open>
  \<^verbatim>\<open>wg.Wait()\<close> returns when every worker has returned; a panic in any goroutine ends
  the process. The counter is read after the join.
\<close>

definition join :: "worker_status list \<Rightarrow> nat list \<Rightarrow> phase_result phase" where
  "join ws sched =
     (if Panicked \<in> set ws then Crashed
      else if Running \<in> set ws then Blocked
      else
        let runs = List.map_filter returned ws;
            s = pool_run sched (pool_init (map adds runs))
        in if pool_done s
           then Completed \<lparr>total = counter s, logs = map logged runs\<rparr>
           else Blocked)"

definition insertion_phase ::
  "flags \<Rightarrow> profile \<Rightarrow> observation list list \<Rightarrow> nat list \<Rightarrow> phase_result phase" where
  "insertion_phase f p obss sched =
     join (map (\<lambda>i. insert_worker f p i (obs_of obss i) no_run)
             [0 ..< nat (numConcurrentGoroutines p)]) sched"

definition searchDuration :: "int \<Rightarrow> int" where
  "searchDuration d = d sdiv 4"

definition search_phase ::
  "flags \<Rightarrow> profile \<Rightarrow> observation list list \<Rightarrow> nat list \<Rightarrow> phase_result phase" where
  "search_phase f p obss sched =
     join (map (\<lambda>i. search_worker (searchDuration (duration f)) i (obs_of obss i) no_run)
             [0 ..< nat (numConcurrentGoroutines p)]) sched"

section \<open>The orchestrator\<close>

text \<open>
  The function \<^verbatim>\<open>main\<close>. The environment holds what the outside world answers: the result
  of each call to the service, what the workers of the two phases observe, the order
  in which the scheduler lets them update the counter, and the elapsed times read after
  the joins. \<^verbatim>\<open>log.Fatalf\<close> prints its message and ends the process with status 1.
\<close>

datatype step =
    Connect | EnsureCleanCollection | CreateCollection | InsertPhase | Flush
  | CreateIndex | LoadCollection | SearchPhase | Cleanup | FinalReport

definition steps_order :: "step list" where
  "steps_order = [Connect, EnsureCleanCollection, CreateCollection, InsertPhase, Flush,
                  CreateIndex, LoadCollection, SearchPhase, Cleanup, FinalReport]"

record env =
  e_connect :: call_result
  e_hasCollection :: "string + bool"
  e_dropExisting :: call_result
  e_createCollection :: call_result
  e_insertObs :: "observation list list"
  e_insertSched :: "nat list"
  e_insertionTime :: int
  e_flush :: call_result
  e_createIndex :: call_result
  e_loadCollection :: call_result
  e_searchObs :: "observation list list"
  e_searchSched :: "nat list"
  e_searchTime :: int
  e_cleanup :: call_result

record report =
  r_pressureLevel :: string
  r_workers :: int
  r_batchSize :: int
  r_totalVectorsInserted :: int
  r_totalSearchesPerformed :: int
  r_insertionTime :: int
  r_insertsPerSec :: float64
  r_searchTime :: int
  r_searchesPerSec :: float64

datatype outcome = HelpShown | Fatal string | Panic | Waiting | Finished report

record run_result =
  visited :: "step list"
  stderr :: "log_line list list"
  outcome :: outcome

text \<open>
  In the result of a run, \<open>stderr\<close> holds the lines of the workers as the phases keep
  them: one list for each goroutine of the insertion phase, then one for each goroutine
  of the search phase, which starts only after the insertion workers have been joined.
\<close>

text \<open>
  The exit status of the process: 0 after the report or the help text, 1 after
  \<^verbatim>\<open>log.Fatalf\<close>, 2 after a panic; none while \<^verbatim>\<open>wg.Wait()\<close> has not returned.
\<close>

fun exit_status :: "outcome \<Rightarrow> int option" where
  "exit_status HelpShown = Some 0"
| "exit_status (Fatal msg) = Some 1"
| "exit_status Panic = Some 2"
| "exit_status Waiting = None"
| "exit_status (Finished r) = Some 0"

definition stop_at :: "nat \<Rightarrow> log_line list list \<Rightarrow> outcome \<Rightarrow> run_result" where
  "stop_at k ls out = \<lparr>visited = take k steps_order, stderr = ls, outcome = out\<rparr>"

text \<open>Step 2: check for the collection and drop it when it exists.\<close>

definition ensure_clean :: "env \<Rightarrow> call_result" where
  "ensure_clean env =
     (case e_hasCollection env of
        Inl e \<Rightarrow> Err (''Failed to check if collection exists: '' @ e)
      | Inr has \<Rightarrow>
          if has then
            (case e_dropExisting env of
               Err e \<Rightarrow> Err (''Failed to drop collection: '' @ e)
             | Ok \<Rightarrow> Ok)
          else Ok)"

definition run :: "flags \<Rightarrow> env \<Rightarrow> run_result" where
  "run f env =
     (if showHelp f then \<lparr>visited = [], stderr = [], outcome = HelpShown\<rparr>
      else
        let p = resolve_pressure (pressure f) in
        case e_connect env of
          Err e \<Rightarrow> stop_at 1 [] (Fatal (''Failed to connect to Milvus: '' @ e))
        | Ok \<Rightarrow>
        (case ensure_clean env of
          Err e \<Rightarrow> stop_at 2 [] (Fatal e)
        | Ok \<Rightarrow>
        (case e_createCollection env of
          Err e \<Rightarrow> stop_at 3 [] (Fatal (''Failed to create collection: '' @ e))
        | Ok \<Rightarrow>
        (case insertion_phase f p (e_insertObs env) (e_insertSched env) of
          Blocked \<Rightarrow> stop_at 4 [] Waiting
        | Crashed \<Rightarrow> stop_at 4 [] Panic
        | Completed ins \<Rightarrow>
        (case e_flush env of
          Err e \<Rightarrow> stop_at 5 (logs ins) (Fatal (''Failed to flush collection: '' @ e))
        | Ok \<Rightarrow>
        (case e_createIndex env of
          Err e \<Rightarrow> stop_at 6 (logs ins) (Fatal (''Failed to create index: '' @ e))
        | Ok \<Rightarrow>
        (case e_loadCollection env of
          Err e \<Rightarrow> stop_at 7 (logs ins) (Fatal (''Failed to load collection: '' @ e))
        | Ok \<Rightarrow>
        (case search_phase f p (e_searchObs env) (e_searchSched env) of
          Blocked \<Rightarrow> stop_at 8 (logs ins) Waiting
        | Crashed \<Rightarrow> stop_at 8 (logs ins) Panic
        | Completed srch \<Rightarrow>
        (case e_cleanup env of
          Err e \<Rightarrow>
            stop_at 9 (logs ins @ logs srch) (Fatal (''Failed to drop collection: '' @ e))
        | Ok \<Rightarrow>
            stop_at 10 (logs ins @ logs srch)
              (Finished
                \<lparr>r_pressureLevel = pressureLevel p,
                 r_workers = numConcurrentGoroutines p,
                 r_batchSize = batchSize p,
                 r_totalVectorsInserted = total ins,
                 r_totalSearchesPerformed = total srch,
                 r_insertionTime = e_insertionTime env,
                 r_insertsPerSec = per_second (total ins) (e_insertionTime env),
                 r_searchTime = e_searchTime env,
                 r_searchesPerSec = per_second (total srch) (e_searchTime env)\<rparr>))))))))))"

section \<open>What the specification counts\<close>

text \<open>
  The specification speaks of the units of work a worker completes before the deadline.
  These functions name them, independently of the loops above: the observations of the
  passes that start before the deadline, the batch sizes of those whose call succeeded,
  and the error messages of those whose call failed.
\<close>

definition before_deadline :: "int \<Rightarrow> observation list \<Rightarrow> observation list" where
  "before_deadline d obs = takeWhile (\<lambda>ob. ob_now ob < d) obs"

definition reaches_deadline :: "int \<Rightarrow> observation list \<Rightarrow> bool" where
  "reaches_deadline d obs \<longleftrightarrow> list_ex (\<lambda>ob. \<not> ob_now ob < d) obs"

definition successful_sizes :: "flags \<Rightarrow> profile \<Rightarrow> observation list \<Rightarrow> int list" where
  "successful_sizes f p obs =
     List.map_filter (\<lambda>ob. if ob_result ob = Ok then currentBatchSize f p ob else None)
       (before_deadline (duration f) obs)"

definition failure_messages :: "int \<Rightarrow> observation list \<Rightarrow> string list" where
  "failure_messages d obs =
     List.map_filter (\<lambda>ob. case ob_result ob of Err e \<Rightarrow> Some e | Ok \<Rightarrow> None)
       (before_deadline d obs)"

fun line_message :: "log_line \<Rightarrow> string" where
  "line_message (InsertFailed g n e) = e"
| "line_message (SearchFailed g n e) = e"

definition successful_searches :: "int \<Rightarrow> observation list \<Rightarrow> observation list" where
  "successful_searches d obs = filter (\<lambda>ob. ob_result ob = Ok) (before_deadline d obs)"

text \<open>What all workers of a phase complete together.\<close>

definition inserted_by_all :: "flags \<Rightarrow> profile \<Rightarrow> observation list list \<Rightarrow> int" where
  "inserted_by_all f p obss =
     (\<Sum>i \<leftarrow> [0 ..< nat (numConcurrentGoroutines p)].
        sum_list (successful_sizes f p (obs_of obss i)))"

definition searched_by_all :: "flags \<Rightarrow> profile \<Rightarrow> observation list list \<Rightarrow> int" where
  "searched_by_all f p obss =
     (\<Sum>i \<leftarrow> [0 ..< nat (numConcurrentGoroutines p)].
        int (length (successful_searches (searchDuration (duration f)) (obs_of obss i))))"

text \<open>The call that belongs to a step of the orchestrator returns an error.\<close>

fun call_failed :: "env \<Rightarrow> step \<Rightarrow> bool" where
  "call_failed env Connect \<longleftrightarrow> e_connect env \<noteq> Ok"
| "call_failed env EnsureCleanCollection \<longleftrightarrow> ensure_clean env \<noteq> Ok"
| "call_failed env CreateCollection \<longleftrightarrow> e_createCollection env \<noteq> Ok"
| "call_failed env Flush \<longleftrightarrow> e_flush env \<noteq> Ok"
| "call_failed env CreateIndex \<longleftrightarrow> e_createIndex env \<noteq> Ok"
| "call_failed env LoadCollection \<longleftrightarrow> e_loadCollection env \<noteq> Ok"
| "call_failed env Cleanup \<longleftrightarrow> e_cleanup env \<noteq> Ok"
| "call_failed env _ \<longleftrightarrow> False"

section \<open>Assumptions about the environment\<close>

text \<open>
  The clock of a worker does not run backwards; every call of the set-up and tear-down
  succeeds; every worker reads the clock at or after its deadline at some point; and
  the scheduler lets every update of the two counters happen.
\<close>

definition clock_sane :: "observation list \<Rightarrow> bool" where
  "clock_sane obs \<longleftrightarrow> list_all (\<lambda>ob. 0 \<le> ob_now ob \<and> 0 \<le> ob_since ob) obs"

definition setup_succeeds :: "env \<Rightarrow> bool" where
  "setup_succeeds env \<longleftrightarrow>
     e_connect env = Ok \<and> ensure_clean env = Ok \<and> e_createCollection env = Ok
   \<and> e_flush env = Ok \<and> e_createIndex env = Ok \<and> e_loadCollection env = Ok
   \<and> e_cleanup env = Ok"

definition deadlines_pass :: "flags \<Rightarrow> env \<Rightarrow> bool" where
  "deadlines_pass f env \<longleftrightarrow>
     list_all (\<lambda>i.
        reaches_deadline (duration f) (obs_of (e_insertObs env) i)
      \<and> clock_sane (obs_of (e_insertObs env) i)
      \<and> reaches_deadline (searchDuration (duration f)) (obs_of (e_searchObs env) i))
       [0 ..< nat (numConcurrentGoroutines (resolve_pressure (pressure f)))]"

definition updates_scheduled :: "flags \<Rightarrow> env \<Rightarrow> bool" where
  "updates_scheduled f env \<longleftrightarrow>
     (let p = resolve_pressure (pressure f);
          ids = [0 ..< nat (numConcurrentGoroutines p)]
      in pool_done (pool_run (e_insertSched env) (pool_init
           (map (\<lambda>i. successful_sizes f p (obs_of (e_insertObs env) i)) ids)))
       \<and> pool_done (pool_run (e_searchSched env) (pool_init
           (map (\<lambda>i. map (\<lambda>ob. 1)
                  (successful_searches (searchDuration (duration f)) (obs_of (e_searchObs env) i)))
              ids))))"

section \<open>Invariants of the shared counter\<close>

text \<open>
  A goroutine is between \<^verbatim>\<open>Lock\<close> and \<^verbatim>\<open>Unlock\<close> exactly when it holds the mutex, and the
  value it has loaded is the value of the counter. The amounts not yet added are the
  outstanding ones.
\<close>

definition task_ok :: "pool \<Rightarrow> nat \<Rightarrow> task \<Rightarrow> bool" where
  "task_ok s i t =
     (case t_pc t of
        Idle \<Rightarrow> mu s \<noteq> Some i
      | Locked \<Rightarrow> mu s = Some i \<and> t_pending t \<noteq> []
      | Loaded v \<Rightarrow> mu s = Some i \<and> t_pending t \<noteq> [] \<and> v = counter s
      | Stored \<Rightarrow> mu s = Some i)"

definition pool_inv :: "pool \<Rightarrow> bool" where
  "pool_inv s \<longleftrightarrow>
     wrap64 (counter s) = counter s \<and> (\<forall>i < length (tasks s). task_ok s i (tasks s ! i))"

definition outstanding :: "pool \<Rightarrow> int" where
  "outstanding s = sum_list (map (\<lambda>t. sum_list (t_pending t)) (tasks s))"

definition idle_pool :: "nat \<Rightarrow> pool \<Rightarrow> bool" where
  "idle_pool k s \<longleftrightarrow>
     mu s = None \<and> (\<forall>j < length (tasks s). t_pc (tasks s ! j) = Idle)
     \<and> (\<forall>j < k. j < length (tasks s) \<longrightarrow> t_pending (tasks s ! j) = [])"

section \<open>An example run\<close>

text \<open>
  The scenario of the specification: one second at the low level without ramp-up. Each
  of the five insertion workers inserts a batch, fails once, inserts another batch and
  then finds the deadline passed; the search workers do the same within a quarter of a
  second. Two schedules of the counter updates: the goroutines one after the other, and
  in turns.
\<close>

definition example_flags :: flags where
  "example_flags = \<lparr>milvusAddr = ''localhost:19530'', duration = 1000000000,
     pressure = ''low'', rampUp = False, realTime = False, showHelp = False\<rparr>"

definition example_obs :: "observation list" where
  "example_obs =
     [\<lparr>ob_now = 100000000, ob_since = 100000100, ob_result = Ok\<rparr>,
      \<lparr>ob_now = 400000000, ob_since = 400000100, ob_result = Err ''timeout''\<rparr>,
      \<lparr>ob_now = 700000000, ob_since = 700000100, ob_result = Ok\<rparr>,
      \<lparr>ob_now = 1000000000, ob_since = 1000000100, ob_result = Ok\<rparr>]"

definition example_search_obs :: "observation list" where
  "example_search_obs =
     [\<lparr>ob_now = 50000000, ob_since = 0, ob_result = Ok\<rparr>,
      \<lparr>ob_now = 120000000, ob_since = 0, ob_result = Err ''unavailable''\<rparr>,
      \<lparr>ob_now = 200000000, ob_since = 0, ob_result = Ok\<rparr>,
      \<lparr>ob_now = 250000000, ob_since = 0, ob_result = Ok\<rparr>]"

definition one_by_one :: "nat list" where
  "one_by_one = concat (map (replicate 8) [0, 1, 2, 3, 4])"

definition round_robin :: "nat list" where
  "round_robin = concat (replicate 32 [4, 3, 2, 1, 0])"

definition example_env :: env where
  "example_env =
     \<lparr>e_connect = Ok, e_hasCollection = Inr True, e_dropExisting = Ok,
      e_createCollection = Ok,
      e_insertObs = replicate 5 example_obs, e_insertSched = round_robin,
      e_insertionTime = 1000000123,
      e_flush = Ok, e_createIndex = Ok, e_loadCollection = Ok,
      e_searchObs = replicate 5 example_search_obs, e_searchSched = one_by_one,
      e_searchTime = 250000456, e_cleanup = Ok\<rparr>"

section \<open>Abbreviations of the proofs\<close>

text \<open>
  Two abbreviations used in the proofs: the unit in the last place of the binade of \<open>x\<close>,
  and the value of \<^verbatim>\<open>progress\<close> while the ramp is running.
\<close>

definition ulp :: "rat \<Rightarrow> rat" where
  "ulp x = 2 powi (ilog2 \<bar>x\<bar> - 52)"

definition prog :: "int \<Rightarrow> int \<Rightarrow> rat" where
  "prog e t = fl (fl (of_int e) / fl (of_int t))"

section \<open>Properties of the rounding\<close>

lemma bitlen_nonneg: "0 \<le> bitlen n"
  by (induction n rule: bitlen.induct) (subst bitlen.simps, auto)

lemma bitlen_pos: "0 < n \<Longrightarrow> 0 < bitlen n"
  using bitlen_nonneg [of "n div 2"] by (subst bitlen.simps) simp

lemma bitlen_bounds:
  "0 < n \<Longrightarrow> 2 ^ nat (bitlen n - 1) \<le> n \<and> n < 2 ^ nat (bitlen n)"
proof (induction n rule: bitlen.induct)
  case (1 n)
  show ?case
  proof (cases "n = 1")
    case True
    then show ?thesis by (simp add: bitlen.simps)
  next
    case False
    with "1.prems" have h: "0 < n div 2" by simp
    from "1.IH" "1.prems" h
    have ih: "2 ^ nat (bitlen (n div 2) - 1) \<le> n div 2" "n div 2 < 2 ^ nat (bitlen (n div 2))"
      by auto
    have bl: "bitlen n = 1 + bitlen (n div 2)"
      using "1.prems" by (subst bitlen.simps) simp
    have p: "0 < bitlen (n div 2)" using h by (rule bitlen_pos)
    have e1: "nat (bitlen n - 1) = Suc (nat (bitlen (n div 2) - 1))"
      using bl p by simp
    have e2: "nat (bitlen n) = Suc (nat (bitlen (n div 2)))"
      using bl p by simp
    have d: "2 * (n div 2) \<le> n" "n < 2 * (n div 2) + 2" by auto
    from ih d show ?thesis unfolding e1 e2 by simp
  qed
qed

lemma ilog2_bounds:
  assumes "0 < x"
  shows "2 powi ilog2 x \<le> x" and "x < 2 powi (ilog2 x + 1)"
proof -
  obtain a b where q: "quotient_of x = (a, b)" by (cases "quotient_of x")
  have b: "0 < b" using q by (rule quotient_of_denom_pos)
  have x: "x = of_int a / of_int b" using q by (rule quotient_of_div)
  have a: "0 < a" using assms b unfolding x by (simp add: zero_less_divide_iff)
  define k where "k = bitlen a - bitlen b"
  have il: "ilog2 x = (if 2 powi k \<le> x then k else k - 1)"
    by (simp add: ilog2_def q k_def)
  note ba = bitlen_bounds [OF a] and bb = bitlen_bounds [OF b]
  have pa: "0 < bitlen a" and pb: "0 < bitlen b" using a b by (auto intro: bitlen_pos)
  have ua: "(of_int a :: rat) < 2 powi bitlen a"
  proof -
    have "(of_int a :: rat) < of_int (2 ^ nat (bitlen a))" using ba by (simp only: of_int_less_iff)
    then show ?thesis using pa by (simp add: power_int_nonneg_exp)
  qed
  have la: "(2 :: rat) powi (bitlen a - 1) \<le> of_int a"
  proof -
    have "(of_int (2 ^ nat (bitlen a - 1)) :: rat) \<le> of_int a" using ba by (simp only: of_int_le_iff)
    then show ?thesis using pa by (simp add: power_int_nonneg_exp)
  qed
  have ub: "(of_int b :: rat) < 2 powi bitlen b"
  proof -
    have "(of_int b :: rat) < of_int (2 ^ nat (bitlen b))" using bb by (simp only: of_int_less_iff)
    then show ?thesis using pb by (simp add: power_int_nonneg_exp)
  qed
  have lb: "(2 :: rat) powi (bitlen b - 1) \<le> of_int b"
  proof -
    have "(of_int (2 ^ nat (bitlen b - 1)) :: rat) \<le> of_int b" using bb by (simp only: of_int_le_iff)
    then show ?thesis using pb by (simp add: power_int_nonneg_exp)
  qed
  have bp: "(0 :: rat) < of_int b" using b by simp
  have up: "x < 2 powi (k + 1)"
  proof -
    have "of_int a < (2 :: rat) powi bitlen a" by (rule ua)
    also have "\<dots> = 2 powi (k + 1) * 2 powi (bitlen b - 1)"
      by (simp add: k_def flip: power_int_add)
    also have "\<dots> \<le> 2 powi (k + 1) * of_int b"
      using lb by (intro mult_left_mono) auto
    finally show ?thesis using bp unfolding x by (simp add: pos_divide_less_eq)
  qed
  have lo: "2 powi (k - 1) \<le> x"
  proof -
    have "(2 :: rat) powi (k - 1) * of_int b \<le> 2 powi (k - 1) * 2 powi bitlen b"
      using ub by (intro mult_left_mono) auto
    also have "\<dots> = 2 powi (bitlen a - 1)"
      by (simp add: k_def flip: power_int_add)
    also have "\<dots> \<le> of_int a" by (rule la)
    finally show ?thesis using bp unfolding x by (simp add: pos_le_divide_eq)
  qed
  show "2 powi ilog2 x \<le> x" using lo by (simp add: il)
  show "x < 2 powi (ilog2 x + 1)" using up by (auto simp add: il not_le)
qed

lemma ilog2_unique:
  assumes "2 powi e \<le> x" and "x < 2 powi (e + 1)"
  shows "ilog2 x = e"
proof -
  have pos: "0 < x" using assms(1) by (rule less_le_trans [rotated]) simp
  note b = ilog2_bounds [OF pos]
  have "(2 :: rat) powi e < 2 powi (ilog2 x + 1)" using assms(1) b(2) by simp
  then have 1: "e < ilog2 x + 1"
    by (metis power_int_increasing not_le one_le_numeral)
  have "(2 :: rat) powi ilog2 x < 2 powi (e + 1)" using assms(2) b(1) by simp
  then have 2: "ilog2 x < e + 1"
    by (metis power_int_increasing not_le one_le_numeral)
  from 1 2 show ?thesis by simp
qed

lemma rhe_of_int [simp]: "rhe (of_int n) = n"
  by (simp add: rhe_def)

lemma rhe_lower: "\<lfloor>x\<rfloor> \<le> rhe x"
  by (simp add: rhe_def Let_def)

lemma rhe_upper: "rhe x \<le> \<lfloor>x\<rfloor> + 1"
  by (simp add: rhe_def Let_def)

lemma rhe_floor_eq: "rhe x = \<lfloor>x\<rfloor> \<or> rhe x = \<lfloor>x\<rfloor> + 1"
  by (simp add: rhe_def Let_def)

lemma rhe_mono:
  assumes "x \<le> y"
  shows "rhe x \<le> rhe y"
proof (cases "\<lfloor>x\<rfloor> = \<lfloor>y\<rfloor>")
  case True
  with assms show ?thesis by (auto simp add: rhe_def Let_def)
next
  case False
  with assms have "\<lfloor>x\<rfloor> + 1 \<le> \<lfloor>y\<rfloor>" using floor_mono [OF assms] by simp
  then show ?thesis using rhe_upper [of x] rhe_lower [of y] by linarith
qed

lemma rhe_err: "\<bar>of_int (rhe x) - x\<bar> \<le> 1 / 2"
proof -
  define r where "r = x - of_int \<lfloor>x\<rfloor>"
  have r: "0 \<le> r" "r < 1" unfolding r_def by linarith+
  have x: "x = of_int \<lfloor>x\<rfloor> + r" by (simp add: r_def)
  have "rhe x = (if r < 1 / 2 then \<lfloor>x\<rfloor> else if 1 / 2 < r then \<lfloor>x\<rfloor> + 1
                  else if even \<lfloor>x\<rfloor> then \<lfloor>x\<rfloor> else \<lfloor>x\<rfloor> + 1)"
    unfolding rhe_def Let_def r_def by (rule refl)
  then have "rhe x = \<lfloor>x\<rfloor> \<and> r \<le> 1 / 2 \<or> rhe x = \<lfloor>x\<rfloor> + 1 \<and> 1 / 2 \<le> r"
    by (auto split: if_splits)
  then show ?thesis
  proof
    assume "rhe x = \<lfloor>x\<rfloor> \<and> r \<le> 1 / 2"
    then have "of_int (rhe x) - x = - r" "r \<le> 1 / 2" using x by auto
    then show ?thesis using r by simp
  next
    assume "rhe x = \<lfloor>x\<rfloor> + 1 \<and> 1 / 2 \<le> r"
    then have "of_int (rhe x) - x = 1 - r" "1 / 2 \<le> r" using x by auto
    then show ?thesis using r by simp
  qed
qed

lemma fl_zero [simp]: "fl 0 = 0"
  by (simp add: fl_def)

lemma fl_minus: "fl (- x) = - fl x"
  by (simp add: fl_def Let_def)

lemma ulp_pos [simp]: "0 < ulp x"
  by (simp add: ulp_def)

lemma fl_pos_eq: "0 < x \<Longrightarrow> fl x = of_int (rhe (x / ulp x)) * ulp x"
  by (simp add: fl_def ulp_def Let_def)

lemma fl_binade:
  assumes lo: "2 powi e \<le> x" and hi: "x < 2 powi (e + 1)"
  shows "fl x = of_int (rhe (x / 2 powi (e - 52))) * 2 powi (e - 52)"
    and "2 powi e \<le> fl x" and "fl x \<le> 2 powi (e + 1)"
proof -
  have pos: "0 < x" using lo by (rule less_le_trans [rotated]) simp
  have il: "ilog2 x = e" using lo hi by (rule ilog2_unique)
  define u :: rat where "u = 2 powi (e - 52)"
  have u: "0 < u" by (simp add: u_def)
  have ux: "ulp x = u" using pos by (simp add: ulp_def il u_def)
  show eq: "fl x = of_int (rhe (x / 2 powi (e - 52))) * 2 powi (e - 52)"
    using fl_pos_eq [OF pos] by (simp add: ux u_def)
  have e1: "(2 :: rat) powi e = 2 ^ 52 * u"
    using power_int_add [of "2 :: rat" 52 "e - 52"] by (simp add: u_def)
  have e2: "(2 :: rat) powi (e + 1) = 2 ^ 53 * u"
    using power_int_add [of "2 :: rat" 53 "e - 52"] by (simp add: u_def add.commute)
  have "of_int (2 ^ 52) \<le> x / u" using lo u by (simp add: e1 pos_le_divide_eq)
  then have "rhe (of_int (2 ^ 52)) \<le> rhe (x / u)" by (rule rhe_mono)
  then have "(of_int (2 ^ 52) :: rat) \<le> of_int (rhe (x / u))"
    unfolding rhe_of_int by (simp only: of_int_le_iff)
  then have "2 ^ 52 * u \<le> of_int (rhe (x / u)) * u"
    using u by (intro mult_right_mono) auto
  then show "2 powi e \<le> fl x" by (simp add: eq e1 u_def)
  have "x / u \<le> of_int (2 ^ 53)" using hi u by (simp add: e2 pos_divide_le_eq)
  then have "rhe (x / u) \<le> rhe (of_int (2 ^ 53))" by (rule rhe_mono)
  then have "(of_int (rhe (x / u)) :: rat) \<le> of_int (2 ^ 53)"
    unfolding rhe_of_int by (simp only: of_int_le_iff)
  then have "of_int (rhe (x / u)) * u \<le> 2 ^ 53 * u"
    using u by (intro mult_right_mono) auto
  then show "fl x \<le> 2 powi (e + 1)" by (simp add: eq e2 u_def)
qed

lemma fl_mono_pos:
  assumes "0 < x" and "x \<le> y"
  shows "fl x \<le> fl y"
proof -
  have y: "0 < y" using assms by simp
  note bx = ilog2_bounds [OF assms(1)] and bY = ilog2_bounds [OF y]
  show ?thesis
  proof (cases "ilog2 x = ilog2 y")
    case True
    define u :: rat where "u = 2 powi (ilog2 y - 52)"
    have u: "0 < u" by (simp add: u_def)
    have "x / u \<le> y / u" using assms(2) u by (simp add: divide_right_mono)
    then have "rhe (x / u) \<le> rhe (y / u)" by (rule rhe_mono)
    then have "(of_int (rhe (x / u)) :: rat) * u \<le> of_int (rhe (y / u)) * u"
      using u by (intro mult_right_mono) auto
    then show ?thesis
      using fl_binade(1) [OF bx] fl_binade(1) [OF bY] by (simp add: True u_def)
  next
    case False
    have "(2 :: rat) powi ilog2 x < 2 powi (ilog2 y + 1)"
      using bx(1) assms(2) bY(2) by simp
    then have "ilog2 x < ilog2 y + 1"
      by (metis power_int_increasing not_le one_le_numeral)
    with False have "ilog2 x + 1 \<le> ilog2 y" by simp
    then have "(2 :: rat) powi (ilog2 x + 1) \<le> 2 powi ilog2 y"
      by (intro power_int_increasing) auto
    then show ?thesis
      using fl_binade(3) [OF bx] fl_binade(2) [OF bY] by simp
  qed
qed

lemma fl_pos:
  assumes "0 < x"
  shows "0 < fl x"
proof -
  have "(0 :: rat) < 2 powi ilog2 x" by simp
  also have "\<dots> \<le> fl x" using fl_binade(2) [OF ilog2_bounds [OF assms]] .
  finally show ?thesis .
qed

lemma fl_nonneg: "0 \<le> x \<Longrightarrow> 0 \<le> fl x"
  using fl_pos [of x] by (cases "x = 0") (auto simp: less_le)

lemma fl_mono:
  assumes "x \<le> y"
  shows "fl x \<le> fl y"
proof -
  consider "0 < x" | "x \<le> 0" "0 \<le> y" | "y < 0" by linarith
  then show ?thesis
  proof cases
    case 1
    then show ?thesis using assms by (rule fl_mono_pos)
  next
    case 2
    have "0 \<le> fl (- x)" using 2 by (intro fl_nonneg) simp
    moreover have "0 \<le> fl y" using 2 by (intro fl_nonneg)
    ultimately show ?thesis by (simp add: fl_minus)
  next
    case 3
    have "fl (- y) \<le> fl (- x)" using 3 assms by (intro fl_mono_pos) auto
    then show ?thesis by (simp add: fl_minus)
  qed
qed

lemma fl_err_pos:
  assumes "0 < x"
  shows "\<bar>fl x - x\<bar> \<le> x / 2 ^ 53"
proof -
  define e where "e = ilog2 x"
  define u :: rat where "u = 2 powi (e - 52)"
  have u: "0 < u" by (simp add: u_def)
  note b = ilog2_bounds [OF assms, folded e_def]
  have eq: "fl x = of_int (rhe (x / u)) * u"
    using fl_binade(1) [OF b] by (simp add: u_def)
  have e1: "(2 :: rat) powi e = 2 ^ 52 * u"
    using power_int_add [of "2 :: rat" 52 "e - 52"] by (simp add: u_def)
  have "fl x - x = (of_int (rhe (x / u)) - x / u) * u"
    using u by (simp add: eq left_diff_distrib)
  then have "\<bar>fl x - x\<bar> = \<bar>of_int (rhe (x / u)) - x / u\<bar> * u"
    using u by (simp add: abs_mult)
  also have "\<dots> \<le> 1 / 2 * u"
    using u rhe_err [of "x / u"] by (intro mult_right_mono) auto
  also have "\<dots> = 2 powi e / 2 ^ 53" by (simp add: e1)
  also have "\<dots> \<le> x / 2 ^ 53" using b(1) by (simp add: divide_right_mono)
  finally show ?thesis .
qed

lemma fl_err: "\<bar>fl x - x\<bar> \<le> \<bar>x\<bar> / 2 ^ 53"
proof -
  consider "0 < x" | "x = 0" | "x < 0" by linarith
  then show ?thesis
  proof cases
    case 1
    then show ?thesis using fl_err_pos [of x] by simp
  next
    case 2
    then show ?thesis by simp
  next
    case 3
    then have "\<bar>fl (- x) - (- x)\<bar> \<le> (- x) / 2 ^ 53" by (intro fl_err_pos) simp
    then show ?thesis using 3 by (simp add: fl_minus abs_minus_commute)
  qed
qed

lemma fl_exact:
  assumes "0 < x" and "x / 2 powi (ilog2 x - 52) = of_int m"
  shows "fl x = x"
proof -
  have "fl x = of_int (rhe (of_int m)) * 2 powi (ilog2 x - 52)"
    using assms by (simp add: fl_def Let_def)
  also have "\<dots> = x / 2 powi (ilog2 x - 52) * 2 powi (ilog2 x - 52)"
    by (simp add: assms(2))
  also have "\<dots> = x" by simp
  finally show ?thesis .
qed

lemma fl_of_int_pos:
  assumes "0 < n" and "n \<le> 2 ^ 53"
  shows "fl (of_int n) = of_int n"
proof -
  define x :: rat where "x = of_int n"
  have pos: "0 < x" using assms by (simp add: x_def)
  define e where "e = ilog2 x"
  note b = ilog2_bounds [OF pos, folded e_def]
  have "(2 :: rat) powi 0 \<le> x" using assms by (simp add: x_def)
  then have "(2 :: rat) powi 0 < 2 powi (e + 1)" using b(2) by (rule le_less_trans)
  then have e0: "0 \<le> e"
    using power_int_increasing [of "e + 1" 0 "2 :: rat"] by (cases "0 \<le> e") auto
  have "x \<le> 2 powi 53" using assms(2) unfolding x_def
    by (metis of_int_le_iff of_int_numeral of_int_power power_int_numeral)
  with b(1) have "(2 :: rat) powi e \<le> 2 powi 53" by (rule order_trans)
  then have e53: "e \<le> 53"
    using power_int_strict_increasing [of 53 e "2 :: rat"] by (cases "e \<le> 53") auto
  show ?thesis
  proof (cases "e = 53")
    case True
    have x53: "x = 2 ^ 53" using b(1) \<open>x \<le> 2 powi 53\<close> by (simp add: True)
    have "ilog2 x - 52 = 1" using True by (simp add: e_def)
    then have "x / 2 powi (ilog2 x - 52) = x / 2" by (simp only: power_int_1_right)
    also have "\<dots> = of_int (2 ^ 52)" by (simp add: x53)
    finally have "x / 2 powi (ilog2 x - 52) = of_int (2 ^ 52)" .
    then have "fl x = x" by (rule fl_exact [OF pos])
    then show ?thesis by (simp only: x_def)
  next
    case False
    with e53 have le: "e \<le> 52" by simp
    have "x / 2 powi (e - 52) = x * 2 powi (52 - e)"
      using power_int_minus [of "2 :: rat" "e - 52"] by (simp add: divide_inverse)
    also have "\<dots> = x * 2 ^ nat (52 - e)" using le by (simp add: power_int_nonneg_exp)
    also have "\<dots> = of_int (n * 2 ^ nat (52 - e))" by (simp add: x_def)
    finally have "x / 2 powi (ilog2 x - 52) = of_int (n * 2 ^ nat (52 - e))"
      by (simp only: e_def)
    then have "fl x = x" by (rule fl_exact [OF pos])
    then show ?thesis by (simp only: x_def)
  qed
qed

lemma fl_of_int:
  assumes "\<bar>n\<bar> \<le> 2 ^ 53"
  shows "fl (of_int n) = of_int n"
proof -
  consider "0 < n" | "n = 0" | "n < 0" by linarith
  then show ?thesis
  proof cases
    case 1
    then show ?thesis using assms by (intro fl_of_int_pos) auto
  next
    case 2
    then show ?thesis by simp
  next
    case 3
    then have "fl (of_int (- n)) = of_int (- n)" using assms by (intro fl_of_int_pos) auto
    then show ?thesis by (simp add: fl_minus)
  qed
qed

lemma fl_one [simp]: "fl 1 = 1"
  using fl_of_int [of 1] by simp

lemma fl_le_one: "x \<le> 1 \<Longrightarrow> fl x \<le> 1"
  using fl_mono [of x 1] by simp

lemma fl_big: "fl 8646911284551352320 = 8646911284551352320"
  by code_simp

section \<open>Properties of the ramp-up scheduler\<close>

lemma wrap64_id: "is_int64 x \<Longrightarrow> wrap64 x = x"
  by (simp add: wrap64_def is_int64_def)

lemma trunc_of_int [simp]: "trunc (of_int n) = n"
  by (simp add: trunc_def)

lemma trunc_mono:
  assumes "x \<le> y"
  shows "trunc x \<le> trunc y"
proof -
  consider "0 \<le> x" | "x < 0" "y < 0" | "x < 0" "0 \<le> y" by linarith
  then show ?thesis
  proof cases
    case 1
    then show ?thesis using assms by (simp add: trunc_def floor_mono)
  next
    case 2
    then show ?thesis using assms by (simp add: trunc_def ceiling_mono)
  next
    case 3
    have "\<lceil>x\<rceil> \<le> 0" using 3 by (simp add: ceiling_le_iff)
    moreover have "0 \<le> \<lfloor>y\<rfloor>" using 3 by simp
    ultimately have "\<lceil>x\<rceil> \<le> \<lfloor>y\<rfloor>" by linarith
    then show ?thesis using 3 by (simp add: trunc_def)
  qed
qed

lemma fl_of_int_pos': "0 < t \<Longrightarrow> 0 < fl (of_int t)"
  by (intro fl_pos) simp

lemma prog_nonneg: "0 \<le> e \<Longrightarrow> 0 < t \<Longrightarrow> 0 \<le> prog e t"
  unfolding prog_def
  by (intro fl_nonneg divide_nonneg_pos fl_of_int_pos') auto

lemma prog_le_one:
  assumes "e \<le> t" and "0 < t"
  shows "prog e t \<le> 1"
proof -
  have "fl (of_int e) \<le> fl (of_int t)" using assms by (intro fl_mono) simp
  then have "fl (of_int e) / fl (of_int t) \<le> 1"
    using fl_of_int_pos' [OF assms(2)] by (simp add: pos_divide_le_eq)
  then show ?thesis unfolding prog_def by (rule fl_le_one)
qed

lemma prog_mono:
  assumes "e1 \<le> e2" and "0 < t"
  shows "prog e1 t \<le> prog e2 t"
proof -
  have "fl (of_int e1) \<le> fl (of_int e2)" using assms by (intro fl_mono) simp
  then have "fl (of_int e1) / fl (of_int t) \<le> fl (of_int e2) / fl (of_int t)"
    using fl_of_int_pos' [OF assms(2)] by (simp add: divide_right_mono)
  then show ?thesis unfolding prog_def by (rule fl_mono)
qed

lemma prog_zero [simp]: "prog 0 t = 0"
  by (simp add: prog_def)

lemma ramp_progress_eq:
  assumes "e \<le> t" and "0 < t"
  shows "ramp_progress e t = Fin (prog e t)"
proof -
  have nz: "fl (of_int t) \<noteq> 0" using fl_of_int_pos' [OF assms(2)] by simp
  have "\<not> 1 < prog e t" using prog_le_one [OF assms] by simp
  then show ?thesis
    using nz by (simp add: ramp_progress_def float64_of_int_def float64_const_def prog_def)
qed

text \<open>The ramp between a start value and a maximum that float64 represents exactly.\<close>

lemma ramp_value_exact:
  assumes p: "0 \<le> p" "p \<le> 1"
    and s: "0 \<le> start" "start \<le> maxv" "maxv \<le> 2 ^ 53"
  shows "ramp_value start maxv (Fin p) =
           Some (start + trunc (fl (of_int (maxv - start) * p)))"
    and "0 \<le> trunc (fl (of_int (maxv - start) * p))"
    and "trunc (fl (of_int (maxv - start) * p)) \<le> maxv - start"
proof -
  define d where "d = maxv - start"
  define k where "k = trunc (fl (of_int d * p))"
  have d: "0 \<le> d" "d \<le> 2 ^ 53" using s by (auto simp: d_def)
  have wd: "wrap64 d = d" using d by (intro wrap64_id) (simp add: is_int64_def)
  have fd: "fl (of_int d) = of_int d" using d by (intro fl_of_int) simp
  have "0 \<le> of_int d * p" using d p by simp
  then have "fl 0 \<le> fl (of_int d * p)" by (rule fl_mono)
  then have "trunc 0 \<le> k" unfolding k_def by (intro trunc_mono) simp
  then have k0: "0 \<le> k" by (simp add: trunc_def)
  have "of_int d * p \<le> of_int d" using d p by (simp add: mult_left_le)
  then have "fl (of_int d * p) \<le> fl (of_int d)" by (rule fl_mono)
  then have "k \<le> trunc (of_int d)" unfolding k_def fd by (rule trunc_mono)
  then have kd: "k \<le> d" by (simp only: trunc_of_int)
  have ik: "is_int64 k" using k0 kd d by (simp add: is_int64_def)
  have "is_int64 (start + k)" using k0 kd s by (simp add: is_int64_def d_def)
  then have ws: "wrap64 (start + k) = start + k" by (rule wrap64_id)
  have "ramp_value start maxv (Fin p) = Some (start + k)"
    unfolding ramp_value_def float64_of_int_def d_def [symmetric] wd fd
    using ik ws by (simp add: k_def)
  then show "ramp_value start maxv (Fin p) =
           Some (start + trunc (fl (of_int (maxv - start) * p)))"
    unfolding k_def d_def .
  show "0 \<le> trunc (fl (of_int (maxv - start) * p))" using k0 unfolding k_def d_def .
  show "trunc (fl (of_int (maxv - start) * p)) \<le> maxv - start" using kd unfolding k_def d_def .
qed

lemma ramp_value_mono:
  assumes "0 \<le> p" "p \<le> q" "q \<le> 1"
    and "0 \<le> start" "start \<le> maxv" "maxv \<le> 2 ^ 53"
  shows "\<exists>a b. ramp_value start maxv (Fin p) = Some a \<and> ramp_value start maxv (Fin q) = Some b
           \<and> start \<le> a \<and> a \<le> b \<and> b \<le> maxv"
proof -
  have p1: "p \<le> 1" and q0: "0 \<le> q" using assms by auto
  note rp = ramp_value_exact [OF assms(1) p1 assms(4-6)]
  note rq = ramp_value_exact [OF q0 assms(3) assms(4-6)]
  have "of_int (maxv - start) * p \<le> of_int (maxv - start) * q"
    using assms by (intro mult_left_mono) auto
  then have "trunc (fl (of_int (maxv - start) * p)) \<le> trunc (fl (of_int (maxv - start) * q))"
    by (intro trunc_mono fl_mono)
  then show ?thesis using rp rq by auto
qed

lemma startWorkers_bounds:
  assumes "1 \<le> mw"
  shows "1 \<le> max_int 1 (mw sdiv 10)" and "max_int 1 (mw sdiv 10) \<le> mw"
    and "max_int 1 (mw sdiv 10) = max 1 (mw div 10)"
proof -
  have "mw sdiv 10 = mw div 10" using assms by (simp add: signed_divide_int_def sgn_if)
  then show "max_int 1 (mw sdiv 10) = max 1 (mw div 10)" by (simp add: max_int_def max_def)
  then show "1 \<le> max_int 1 (mw sdiv 10)" and "max_int 1 (mw sdiv 10) \<le> mw"
    using assms by auto
qed

lemma startBatchSize_bounds:
  assumes "1 \<le> mb"
  shows "100 \<le> max_int 100 (mb sdiv 10)" and "max_int 100 (mb sdiv 10) \<le> max 100 mb"
    and "max_int 100 (mb sdiv 10) = max 100 (mb div 10)"
    and "mb - max_int 100 (mb sdiv 10) \<le> mb - mb div 10"
proof -
  have "mb sdiv 10 = mb div 10" using assms by (simp add: signed_divide_int_def sgn_if)
  then show e: "max_int 100 (mb sdiv 10) = max 100 (mb div 10)" by (simp add: max_int_def max_def)
  then show "100 \<le> max_int 100 (mb sdiv 10)" and "max_int 100 (mb sdiv 10) \<le> max 100 mb"
    and "mb - max_int 100 (mb sdiv 10) \<le> mb - mb div 10"
    using assms by auto
qed

lemma fl_100: "fl (- 100) = - 100"
  using fl_of_int [of "- 100"] by simp

text \<open>The conversion back to an integer is defined for every 64-bit maximum.\<close>

lemma ramp_value_defined:
  assumes p: "0 \<le> p" "p \<le> 1"
    and d: "- 100 \<le> maxv - start" "maxv - start \<le> 8646911284551352320"
  shows "\<exists>k. ramp_value start maxv (Fin p) = Some k"
proof -
  define d where "d = maxv - start"
  define x where "x = fl (of_int d) * p"
  have dd: "- 100 \<le> d" "d \<le> 8646911284551352320" using d by (auto simp: d_def)
  have wd: "wrap64 d = d" using dd by (intro wrap64_id) (simp add: is_int64_def)
  have "fl (of_int (- 100)) \<le> fl (of_int d)" using dd by (intro fl_mono) simp
  then have lo: "- 100 \<le> fl (of_int d)" by (simp add: fl_100)
  have "fl (of_int d) \<le> fl (of_int 8646911284551352320)" using dd by (intro fl_mono) simp
  then have hi: "fl (of_int d) \<le> 8646911284551352320" by (simp add: fl_big)
  have xlo: "- 100 \<le> x"
  proof (cases "0 \<le> fl (of_int d)")
    case True
    then have "0 \<le> x" using p by (simp add: x_def)
    then show ?thesis by simp
  next
    case False
    then have "fl (of_int d) * 1 \<le> fl (of_int d) * p"
      using p by (intro mult_left_mono_neg) auto
    then show ?thesis using lo by (simp add: x_def)
  qed
  have xhi: "x \<le> 8646911284551352320"
  proof (cases "0 \<le> fl (of_int d)")
    case True
    then have "fl (of_int d) * p \<le> fl (of_int d) * 1"
      using p by (intro mult_left_mono) auto
    then show ?thesis using hi by (simp add: x_def)
  next
    case False
    then have "x \<le> 0" using p by (simp add: x_def mult_le_0_iff)
    then show ?thesis by simp
  qed
  have "fl (- 100) \<le> fl x" using xlo by (rule fl_mono)
  then have "trunc (of_int (- 100)) \<le> trunc (fl x)" by (intro trunc_mono) (simp add: fl_100)
  then have tlo: "- 100 \<le> trunc (fl x)" by (simp only: trunc_of_int)
  have "fl x \<le> fl 8646911284551352320" using xhi by (rule fl_mono)
  then have "trunc (fl x) \<le> trunc (of_int 8646911284551352320)"
    by (intro trunc_mono) (simp add: fl_big)
  then have thi: "trunc (fl x) \<le> 8646911284551352320" by (simp only: trunc_of_int)
  have "is_int64 (trunc (fl x))" using tlo thi by (simp add: is_int64_def)
  then show ?thesis
    unfolding ramp_value_def float64_of_int_def d_def [symmetric] wd
    by (simp add: x_def)
qed

lemma batch_defined:
  assumes p: "0 \<le> p" "p \<le> 1" and mb: "1 \<le> mb" "is_int64 mb"
  shows "\<exists>k. ramp_value (max_int 100 (mb sdiv 10)) mb (Fin p) = Some k"
proof -
  note sb = startBatchSize_bounds [OF mb(1)]
  have "mb - mb div 10 \<le> 8646911284551352320" using mb by (simp add: is_int64_def)
  then have "mb - max_int 100 (mb sdiv 10) \<le> 8646911284551352320" using sb(4) by simp
  moreover have "- 100 \<le> mb - max_int 100 (mb sdiv 10)" using sb(2) mb by simp
  ultimately show ?thesis using p by (intro ramp_value_defined) auto
qed

lemma calculateDynamicLoad_ramp:
  assumes "e < t"
  shows "calculateDynamicLoad e t mw mb =
     (case ramp_value (max_int 1 (mw sdiv 10)) mw (ramp_progress e t) of
        None \<Rightarrow> None
      | Some w \<Rightarrow> (case ramp_value (max_int 100 (mb sdiv 10)) mb (ramp_progress e t) of
                     None \<Rightarrow> None | Some b \<Rightarrow> Some (w, b)))"
  using assms by (simp add: calculateDynamicLoad_def Let_def)

lemma workers_bounded:
  assumes "0 \<le> e" "0 < t" "1 \<le> mw" "mw \<le> 2 ^ 53" "1 \<le> mb" "is_int64 mb"
  shows "\<exists>w b. calculateDynamicLoad e t mw mb = Some (w, b) \<and> 1 \<le> w \<and> w \<le> mw"
proof (cases "e < t")
  case False
  then show ?thesis using assms by (simp add: calculateDynamicLoad_def)
next
  case True
  then have et: "e \<le> t" by simp
  have p: "0 \<le> prog e t" "prog e t \<le> 1"
    using assms et by (auto intro: prog_nonneg prog_le_one)
  note sw = startWorkers_bounds [OF assms(3)]
  have s0: "0 \<le> max_int 1 (mw sdiv 10)" using sw(1) by simp
  note rw = ramp_value_exact [OF p s0 sw(2) assms(4)]
  obtain b where b: "ramp_value (max_int 100 (mb sdiv 10)) mb (Fin (prog e t)) = Some b"
    using batch_defined [OF p assms(5,6)] by blast
  define k where "k = trunc (fl (of_int (mw - max_int 1 (mw sdiv 10)) * prog e t))"
  have "calculateDynamicLoad e t mw mb = Some (max_int 1 (mw sdiv 10) + k, b)"
    using rw(1) b
    by (simp add: calculateDynamicLoad_ramp [OF True] ramp_progress_eq [OF et assms(2)] k_def)
  moreover have "1 \<le> max_int 1 (mw sdiv 10) + k" "max_int 1 (mw sdiv 10) + k \<le> mw"
    using rw(2,3) sw(1) unfolding k_def [symmetric] by linarith+
  ultimately show ?thesis by blast
qed

lemma ramp_monotone:
  assumes "0 \<le> e1" "e1 \<le> e2" "0 < t" "1 \<le> mw" "mw \<le> 2 ^ 53" "100 \<le> mb" "mb \<le> 2 ^ 53"
  shows "\<exists>w1 b1 w2 b2. calculateDynamicLoad e1 t mw mb = Some (w1, b1)
           \<and> calculateDynamicLoad e2 t mw mb = Some (w2, b2) \<and> w1 \<le> w2 \<and> b1 \<le> b2"
proof -
  have mb1: "1 \<le> mb" using assms by simp
  note sw = startWorkers_bounds [OF assms(4)]
  note sb = startBatchSize_bounds [OF mb1]
  have s0: "0 \<le> max_int 1 (mw sdiv 10)" using sw(1) by simp
  have b0: "0 \<le> max_int 100 (mb sdiv 10)" using sb(1) by simp
  have bm: "max_int 100 (mb sdiv 10) \<le> mb" using sb(2) assms(6) by simp
  consider "e2 < t" | "e1 < t" "t \<le> e2" | "t \<le> e1" by linarith
  then show ?thesis
  proof cases
    case 1
    then have lt: "e1 < t" "e2 < t" and le: "e1 \<le> t" "e2 \<le> t" using assms by auto
    have p: "0 \<le> prog e1 t" "prog e1 t \<le> prog e2 t" "prog e2 t \<le> 1"
      using assms le by (auto intro: prog_nonneg prog_le_one prog_mono)
    from ramp_value_mono [OF p s0 sw(2) assms(5)] ramp_value_mono [OF p b0 bm assms(7)]
    show ?thesis
      by (auto simp add: calculateDynamicLoad_ramp lt ramp_progress_eq le assms(3))
  next
    case 2
    then have le: "e1 \<le> t" by simp
    have p: "0 \<le> prog e1 t" "prog e1 t \<le> 1"
      using assms le by (auto intro: prog_nonneg prog_le_one)
    note rw = ramp_value_exact [OF p s0 sw(2) assms(5)]
    note rb = ramp_value_exact [OF p b0 bm assms(7)]
    have 1: "calculateDynamicLoad e2 t mw mb = Some (mw, mb)"
      using 2 by (simp add: calculateDynamicLoad_def)
    show ?thesis
      using rw rb 1 by (simp add: calculateDynamicLoad_ramp 2(1) ramp_progress_eq le assms(3))
  next
    case 3
    then show ?thesis using assms by (simp add: calculateDynamicLoad_def)
  qed
qed

lemma ramp_value_zero:
  assumes "is_int64 start"
  shows "ramp_value start maxv (Fin 0) = Some start"
  using assms by (simp add: ramp_value_def float64_of_int_def wrap64_id is_int64_def trunc_def)

lemma load_at_start:
  assumes "totalDuration > 0" "maxWorkers \<ge> 1" "maxBatch \<ge> 1" "is_int64 maxWorkers" "is_int64 maxBatch"
  shows "calculateDynamicLoad 0 totalDuration maxWorkers maxBatch =
           Some (max 1 (maxWorkers div 10), max 100 (maxBatch div 10))"
proof -
  note sw = startWorkers_bounds [OF assms(2)]
  note sb = startBatchSize_bounds [OF assms(3)]
  have 1: "is_int64 (max_int 1 (maxWorkers sdiv 10))"
    using sw(1,2) assms(4) by (simp add: is_int64_def)
  have 2: "is_int64 (max_int 100 (maxBatch sdiv 10))"
    using sb(1,2) assms(5) by (auto simp add: is_int64_def)
  have le: "0 \<le> totalDuration" using assms by simp
  have pr: "ramp_progress 0 totalDuration = Fin 0"
    using ramp_progress_eq [OF le assms(1)] by simp
  have "calculateDynamicLoad 0 totalDuration maxWorkers maxBatch =
          Some (max_int 1 (maxWorkers sdiv 10), max_int 100 (maxBatch sdiv 10))"
    by (simp add: calculateDynamicLoad_ramp [OF assms(1)] pr
        ramp_value_zero [OF 1] ramp_value_zero [OF 2])
  then show ?thesis by (simp only: sw(3) sb(3))
qed

section \<open>Properties of the resolver, the deadline and the orchestrator\<close>

lemma lower_fixed:
  "map ascii_lower ''low'' = ''low''" "map ascii_lower ''medium'' = ''medium''"
  "map ascii_lower ''high'' = ''high''" "map ascii_lower ''extreme'' = ''extreme''"
  by code_simp+

lemma sdiv4: "(d :: int) sdiv 4 = (if 0 \<le> d then d div 4 else - ((- d) div 4))"
  by (simp add: signed_divide_int_def sgn_if)

lemma searchDuration_props:
  "\<bar>d - 4 * searchDuration d\<bar> < 4" "4 dvd d \<Longrightarrow> 4 * searchDuration d = d"
  "0 \<le> d \<Longrightarrow> 4 * searchDuration d \<le> d"
  unfolding searchDuration_def sdiv4 by (auto simp: abs_if) 

lemma not_Ok: "r \<noteq> Ok \<longleftrightarrow> (\<exists>e. r = Err e)"
  by (cases r) auto

lemma run_fatal:
  assumes "st \<in> {Connect, CreateCollection, Flush, CreateIndex, LoadCollection, Cleanup}"
    and "st \<in> set (visited (run f env))" and "call_failed env st"
  shows "(\<exists>msg. outcome (run f env) = Fatal msg)
       \<and> visited (run f env) = takeWhile (\<lambda>s. s \<noteq> st) steps_order @ [st]"
  using assms
  by (auto simp add: run_def stop_at_def steps_order_def Let_def not_Ok
      split: call_result.splits phase.splits if_splits)

section \<open>Properties of the throughput\<close>

lemma fl_rel: "\<exists>\<delta>. fl x = x * (1 + \<delta>) \<and> \<bar>\<delta>\<bar> \<le> 1 / 2 ^ 53"
proof (cases "x = 0")
  case True
  then show ?thesis by (intro exI [of _ 0]) simp
next
  case False
  define \<delta> where "\<delta> = (fl x - x) / x"
  have "fl x = x * (1 + \<delta>)" using False by (simp add: \<delta>_def field_simps)
  moreover have "\<bar>\<delta>\<bar> \<le> 1 / 2 ^ 53"
  proof -
    have "\<bar>\<delta>\<bar> = \<bar>fl x - x\<bar> / \<bar>x\<bar>" by (simp add: \<delta>_def)
    also have "\<dots> \<le> (\<bar>x\<bar> / 2 ^ 53) / \<bar>x\<bar>"
      using fl_err [of x] by (intro divide_right_mono) auto
    also have "\<dots> = 1 / 2 ^ 53" using False by simp
    finally show ?thesis .
  qed
  ultimately show ?thesis by blast
qed

lemma fl_1e9: "fl 1000000000 = 1000000000"
  using fl_of_int [of 1000000000] by simp

lemma seconds_zero: "seconds 0 = Fin 0"
  by (simp add: seconds_def float64_of_int_def float64_const_def fl_1e9)

lemma fl_eq_0_iff: "fl x = 0 \<longleftrightarrow> x = 0"
  using fl_pos [of x] fl_pos [of "- x"] by (cases "x = 0"; cases "0 < x") (auto simp: fl_minus)

lemma per_second_zero:
  "per_second totalOps 0 = (if totalOps = 0 then NaN else if 0 < totalOps then PInf else NInf)"
proof -
  have "0 < totalOps \<Longrightarrow> 0 < fl (of_int totalOps)" by (intro fl_pos) simp
  moreover have "totalOps < 0 \<Longrightarrow> fl (of_int totalOps) < 0"
    using fl_pos [of "- of_int totalOps"] by (simp add: fl_minus)
  ultimately have "totalOps = 0 \<and> fl (of_int totalOps) = 0
      \<or> 0 < totalOps \<and> 0 < fl (of_int totalOps)
      \<or> totalOps < 0 \<and> fl (of_int totalOps) < 0"
    by (cases "totalOps = 0"; cases "0 < totalOps") auto
  then show ?thesis
    by (elim disjE) (simp_all add: per_second_def seconds_zero float64_of_int_def inf_of_sign_def)
qed

text \<open>The relative error of Seconds and of the quotient.\<close>

lemma seconds_pos:
  assumes "0 < d" and "is_int64 d"
  shows "\<exists>s \<delta> \<epsilon>. seconds d = Fin s \<and> s = of_int d / 10 ^ 9 * (1 + \<delta>) * (1 + \<epsilon>)
            \<and> \<bar>\<delta>\<bar> \<le> 1 / 2 ^ 53 \<and> \<bar>\<epsilon>\<bar> \<le> 1 / 2 ^ 53"
proof -
  define sec where "sec = d div 1000000000"
  define nsec where "nsec = d mod 1000000000"
  have sd: "d sdiv 1000000000 = sec" "d smod 1000000000 = nsec"
    using assms(1) by (simp_all add: signed_divide_int_def signed_modulo_int_def sgn_if sec_def nsec_def)
  have n: "0 \<le> nsec" "nsec < 1000000000" by (simp_all add: nsec_def)
  have s: "0 \<le> sec" "sec \<le> 2 ^ 53"
    using assms by (simp_all add: sec_def is_int64_def)
  have d: "d = sec * 1000000000 + nsec" by (simp add: sec_def nsec_def)
  have fs: "fl (of_int sec) = of_int sec" using s by (intro fl_of_int) simp
  have fn: "fl (of_int nsec) = of_int nsec" using n by (intro fl_of_int) simp
  note fc = fl_1e9
  obtain \<delta>0 where d0: "fl (of_int nsec / 1000000000) = of_int nsec / 1000000000 * (1 + \<delta>0)"
      "\<bar>\<delta>0\<bar> \<le> 1 / 2 ^ 53"
    using fl_rel by blast
  define D :: rat where "D = of_int d / 10 ^ 9"
  define F :: rat where "F = of_int nsec / 1000000000"
  have Dpos: "0 < D" using assms(1) by (simp add: D_def)
  have DF: "D = of_int sec + F" by (simp add: D_def F_def d)
  have F: "0 \<le> F" "F \<le> D" using n s by (simp_all add: DF) (simp add: F_def)
  define \<delta> where "\<delta> = F * \<delta>0 / D"
  have sum: "of_int sec + F * (1 + \<delta>0) = D * (1 + \<delta>)"
    using Dpos by (simp add: \<delta>_def DF field_simps)
  have "\<bar>\<delta>\<bar> = (F / D) * \<bar>\<delta>0\<bar>" using F Dpos by (simp add: \<delta>_def abs_mult)
  also have "\<dots> \<le> 1 * \<bar>\<delta>0\<bar>" using F Dpos by (intro mult_right_mono) auto
  finally have dl: "\<bar>\<delta>\<bar> \<le> 1 / 2 ^ 53" using d0(2) by simp
  obtain \<epsilon> where e: "fl (D * (1 + \<delta>)) = D * (1 + \<delta>) * (1 + \<epsilon>)" "\<bar>\<epsilon>\<bar> \<le> 1 / 2 ^ 53"
    using fl_rel by blast
  have "seconds d = Fin (fl (of_int sec + fl F))"
    by (simp add: seconds_def sd float64_of_int_def float64_const_def fs fn fc F_def)
  also have "fl F = F * (1 + \<delta>0)" using d0(1) by (simp add: F_def)
  finally have "seconds d = Fin (D * (1 + \<delta>) * (1 + \<epsilon>))" by (simp add: sum e(1))
  then show ?thesis using dl e(2) unfolding D_def by blast
qed

lemma prod_bounds:
  fixes a b u :: rat
  assumes "\<bar>a\<bar> \<le> u" "\<bar>b\<bar> \<le> u" "u \<le> 1 / 4"
  shows "(1 - u) * (1 - u) \<le> (1 + a) * (1 + b)" and "(1 + a) * (1 + b) \<le> (1 + u) * (1 + u)"
    and "9 / 16 \<le> (1 + a) * (1 + b)"
proof -
  have a: "1 - u \<le> 1 + a" "1 + a \<le> 1 + u" using assms by (auto simp: abs_le_iff)
  have b: "1 - u \<le> 1 + b" "1 + b \<le> 1 + u" using assms by (auto simp: abs_le_iff)
  have u: "0 \<le> 1 - u" "3 / 4 \<le> 1 - u" using assms by auto
  show 1: "(1 - u) * (1 - u) \<le> (1 + a) * (1 + b)"
    using a b u by (intro mult_mono) auto
  show "(1 + a) * (1 + b) \<le> (1 + u) * (1 + u)"
    using a b u by (intro mult_mono) auto
  have "(3 / 4) * (3 / 4) \<le> (1 - u) * (1 - u)"
    using u by (intro mult_mono) auto
  with 1 show "9 / 16 \<le> (1 + a) * (1 + b)" by simp
qed

lemma ratio_bound:
  fixes a b c e u :: rat
  assumes "\<bar>a\<bar> \<le> u" "\<bar>b\<bar> \<le> u" "\<bar>c\<bar> \<le> u" "\<bar>e\<bar> \<le> u" "0 \<le> u" "u \<le> 1 / 4"
  shows "\<bar>(1 + a) * (1 + b) / ((1 + c) * (1 + e)) - 1\<bar> \<le> 8 * u"
proof -
  define P where "P = (1 + a) * (1 + b)"
  define Q where "Q = (1 + c) * (1 + e)"
  note p = prod_bounds [OF assms(1,2,6), folded P_def]
  note q = prod_bounds [OF assms(3,4,6), folded Q_def]
  have Q: "0 < Q" "1 / 2 \<le> Q" using q(3) by auto
  have "(1 + u) * (1 + u) - (1 - u) * (1 - u) = 4 * u" by (simp add: algebra_simps)
  then have "\<bar>P - Q\<bar> \<le> 4 * u" using p(1,2) q(1,2) by (simp add: abs_le_iff)
  have "\<bar>P / Q - 1\<bar> = \<bar>P - Q\<bar> / Q" using Q by (simp add: field_simps abs_divide)
  also have "\<dots> \<le> (4 * u) / (1 / 2)"
    using \<open>\<bar>P - Q\<bar> \<le> 4 * u\<close> Q assms(5) by (intro frac_le) auto
  finally show ?thesis by (simp add: P_def Q_def)
qed

lemma per_second_accurate:
  assumes "0 < elapsed" and "is_int64 elapsed"
  shows "\<exists>q. per_second totalOps elapsed = Fin q
           \<and> \<bar>q - of_int totalOps * 10 ^ 9 / of_int elapsed\<bar>
               \<le> \<bar>of_int totalOps * 10 ^ 9 / of_int elapsed\<bar> / 2 ^ 50"
proof -
  define u :: rat where "u = 1 / 2 ^ 53"
  have u: "0 \<le> u" "u \<le> 1 / 4" by (simp_all add: u_def)
  obtain s \<delta> \<epsilon> where s: "seconds elapsed = Fin s"
      "s = of_int elapsed / 10 ^ 9 * (1 + \<delta>) * (1 + \<epsilon>)" "\<bar>\<delta>\<bar> \<le> u" "\<bar>\<epsilon>\<bar> \<le> u"
    using seconds_pos [OF assms] unfolding u_def by blast
  define Q where "Q = (1 + \<delta>) * (1 + \<epsilon>)"
  have Q: "0 < Q" using prod_bounds(3) [OF s(3,4) u(2)] by (simp add: Q_def)
  define D :: rat where "D = of_int elapsed / 10 ^ 9"
  have D: "0 < D" using assms(1) by (simp add: D_def)
  have sQ: "s = D * Q" by (simp add: s(2) D_def Q_def)
  have s0: "s \<noteq> 0" using D Q by (simp add: sQ)
  obtain \<alpha> where a: "fl (of_int totalOps) = of_int totalOps * (1 + \<alpha>)" "\<bar>\<alpha>\<bar> \<le> u"
    using fl_rel unfolding u_def by blast
  obtain \<beta> where b: "fl (fl (of_int totalOps) / s) = fl (of_int totalOps) / s * (1 + \<beta>)" "\<bar>\<beta>\<bar> \<le> u"
    using fl_rel unfolding u_def by blast
  define E :: rat where "E = of_int totalOps * 10 ^ 9 / of_int elapsed"
  define q where "q = fl (fl (of_int totalOps) / s)"
  have ps: "per_second totalOps elapsed = Fin q"
    using s0 by (simp add: per_second_def s(1) float64_of_int_def q_def)
  have ED: "E = of_int totalOps / D" by (simp add: E_def D_def)
  have "q = fl (of_int totalOps) / s * (1 + \<beta>)" unfolding q_def by (rule b(1))
  also have "\<dots> = of_int totalOps * (1 + \<alpha>) / (D * Q) * (1 + \<beta>)"
    by (simp only: a(1) sQ)
  also have "\<dots> = E * ((1 + \<alpha>) * (1 + \<beta>) / Q)"
    using D Q by (simp add: ED field_simps)
  finally have "q = E * ((1 + \<alpha>) * (1 + \<beta>) / Q)" .
  then have "q - E = E * ((1 + \<alpha>) * (1 + \<beta>) / Q - 1)" by (simp add: algebra_simps)
  then have "\<bar>q - E\<bar> = \<bar>E\<bar> * \<bar>(1 + \<alpha>) * (1 + \<beta>) / Q - 1\<bar>" by (simp add: abs_mult)
  also have "\<dots> \<le> \<bar>E\<bar> * (8 * u)"
    using ratio_bound [OF a(2) b(2) s(3,4) u] by (intro mult_left_mono) (auto simp: Q_def)
  also have "\<dots> = \<bar>E\<bar> / 2 ^ 50" by (simp add: u_def)
  finally show ?thesis using ps unfolding E_def by blast
qed

section \<open>Properties of the shared counter\<close>

lemma wrap64_idem [simp]: "wrap64 (wrap64 a) = wrap64 a"
  by (simp add: wrap64_def)

lemma wrap64_add_left: "wrap64 (wrap64 a + b) = wrap64 (a + b)"
proof -
  have e: "(wrap64 a + b + 2 ^ 63) mod 2 ^ 64 = (a + b + 2 ^ 63) mod 2 ^ 64"
  proof -
    have "wrap64 a + b + 2 ^ 63 = (a + 2 ^ 63) mod 2 ^ 64 + b" by (simp add: wrap64_def)
    then have "(wrap64 a + b + 2 ^ 63) mod 2 ^ 64 = ((a + 2 ^ 63) mod 2 ^ 64 + b) mod 2 ^ 64"
      by (simp only:)
    also have "\<dots> = (a + 2 ^ 63 + b) mod 2 ^ 64" by (rule mod_add_left_eq)
    also have "a + 2 ^ 63 + b = a + b + 2 ^ 63" by simp
    finally show ?thesis .
  qed
  show ?thesis by (simp only: wrap64_def [of "wrap64 a + b"] wrap64_def [of "a + b"] e)
qed

lemma pool_inv_init: "pool_inv (pool_init addss)"
  by (simp add: pool_inv_def pool_init_def task_ok_def wrap64_def)

lemma length_pool_step [simp]: "length (tasks (pool_step s i)) = length (tasks s)"
  by (simp add: pool_step_def Let_def split: pc.splits list.splits option.splits)

lemma pool_inv_step:
  assumes "pool_inv s"
  shows "pool_inv (pool_step s i)"
proof (cases "i < length (tasks s)")
  case False
  then show ?thesis using assms by (simp add: pool_step_def)
next
  case True
  have c: "wrap64 (counter s) = counter s" using assms by (simp add: pool_inv_def)
  have ok: "\<And>k. k < length (tasks s) \<Longrightarrow> task_ok s k (tasks s ! k)"
    using assms by (simp add: pool_inv_def)
  have oki: "task_ok s i (tasks s ! i)" using ok True by simp
  show ?thesis
    unfolding pool_inv_def
  proof (intro conjI allI impI)
    show "wrap64 (counter (pool_step s i)) = counter (pool_step s i)"
      using c by (simp add: pool_step_def Let_def split: pc.splits list.splits option.splits)
  next
    fix k assume "k < length (tasks (pool_step s i))"
    then have k: "k < length (tasks s)" by simp
    show "task_ok (pool_step s i) k (tasks (pool_step s i) ! k)"
    proof (cases "k = i")
      case True
      then show ?thesis using oki k
        by (auto simp add: pool_step_def Let_def task_ok_def split: pc.splits list.splits option.splits)
    next
      case False
      then show ?thesis using oki ok [OF k] k True
        by (auto simp add: pool_step_def Let_def task_ok_def split: pc.splits list.splits option.splits)
    qed
  qed
qed

lemma sum_list_map_update:
  fixes f :: "'a \<Rightarrow> int"
  assumes "i < length xs"
  shows "sum_list (map f (xs[i := y])) = sum_list (map f xs) - f (xs ! i) + f y"
  using assms
proof (induction xs arbitrary: i)
  case Nil
  then show ?case by simp
next
  case (Cons x xs)
  then show ?case by (cases i) auto
qed

lemma pool_step_balance:
  assumes "pool_inv s"
  shows "wrap64 (counter (pool_step s i) + outstanding (pool_step s i))
           = wrap64 (counter s + outstanding s)"
proof (cases "i < length (tasks s)")
  case False
  then show ?thesis by (simp add: pool_step_def)
next
  case True
  have oki: "task_ok s i (tasks s ! i)" using assms True by (simp add: pool_inv_def)
  show ?thesis
  proof (cases "\<exists>v n ns. t_pc (tasks s ! i) = Loaded v \<and> t_pending (tasks s ! i) = n # ns")
    case True
    then obtain v n ns where l: "t_pc (tasks s ! i) = Loaded v" "t_pending (tasks s ! i) = n # ns"
      by blast
    have v: "v = counter s" using oki l by (simp add: task_ok_def)
    have "counter (pool_step s i) = wrap64 (counter s + n)"
      using \<open>i < length (tasks s)\<close> l v by (simp add: pool_step_def Let_def)
    moreover have "outstanding (pool_step s i) = outstanding s - n"
      using \<open>i < length (tasks s)\<close> l
      by (simp add: pool_step_def Let_def outstanding_def sum_list_map_update)
    ultimately show ?thesis
      by (simp add: wrap64_add_left)
  next
    case False
    have "counter (pool_step s i) = counter s"
      using False by (auto simp add: pool_step_def Let_def split: pc.splits list.splits option.splits)
    moreover have "outstanding (pool_step s i) = outstanding s"
      using False \<open>i < length (tasks s)\<close>
      by (auto simp add: pool_step_def Let_def outstanding_def sum_list_map_update
          split: pc.splits list.splits option.splits)
    ultimately show ?thesis by simp
  qed
qed

lemma pool_run_inv:
  "pool_inv s \<Longrightarrow> pool_inv (pool_run sched s)
     \<and> wrap64 (counter (pool_run sched s) + outstanding (pool_run sched s))
         = wrap64 (counter s + outstanding s)"
proof (induction sched arbitrary: s)
  case Nil
  then show ?case by (simp add: pool_run_def)
next
  case (Cons i sched)
  have 1: "pool_inv (pool_step s i)" using Cons.prems by (rule pool_inv_step)
  have 2: "pool_run (i # sched) s = pool_run sched (pool_step s i)" by (simp add: pool_run_def)
  show ?case unfolding 2 using Cons.IH [OF 1] pool_step_balance [OF Cons.prems] by simp
qed

lemma sum_list_all_zero: "(\<forall>x \<in> set xs. f x = (0 :: int)) \<Longrightarrow> sum_list (map f xs) = 0"
  by (induction xs) auto

lemma outstanding_done: "pool_done s \<Longrightarrow> outstanding s = 0"
  unfolding outstanding_def
  by (intro sum_list_all_zero) (auto simp add: pool_done_def list_all_iff task_done_def)

lemma outstanding_init: "outstanding (pool_init addss) = sum_list (map sum_list addss)"
  by (simp add: outstanding_def pool_init_def comp_def)

text \<open>Whatever the schedule, a finished pool holds the sum of all amounts.\<close>

lemma pool_counter:
  assumes "pool_done (pool_run sched (pool_init addss))"
  shows "counter (pool_run sched (pool_init addss)) = wrap64 (sum_list (map sum_list addss))"
proof -
  note r = pool_run_inv [OF pool_inv_init, of sched addss]
  have "counter (pool_run sched (pool_init addss))
          = wrap64 (counter (pool_run sched (pool_init addss)))"
    using r by (simp add: pool_inv_def)
  also have "\<dots> = wrap64 (counter (pool_init addss) + outstanding (pool_init addss))"
    using r outstanding_done [OF assms] by simp
  also have "\<dots> = wrap64 (sum_list (map sum_list addss))"
    by (simp add: outstanding_init) (simp add: pool_init_def)
  finally show ?thesis .
qed

lemma pool_run_append: "pool_run (a @ b) s = pool_run b (pool_run a s)"
  by (simp add: pool_run_def)

lemma pool_run_Cons: "pool_run (i # sched) s = pool_run sched (pool_step s i)"
  by (simp add: pool_run_def)

text \<open>One goroutine running alone carries out all its updates.\<close>

lemma solo:
  assumes "i < length (tasks s)" "mu s = None" "tasks s ! i = \<lparr>t_pc = Idle, t_pending = as\<rparr>"
  shows "\<exists>c. pool_run (replicate (4 * length as) i) s
            = s\<lparr>counter := c, tasks := (tasks s)[i := \<lparr>t_pc = Idle, t_pending = []\<rparr>]\<rparr>"
  using assms
proof (induction as arbitrary: s)
  case Nil
  have "(tasks s)[i := \<lparr>t_pc = Idle, t_pending = []\<rparr>] = tasks s"
    using Nil by (metis list_update_id)
  then show ?case by (intro exI [of _ "counter s"]) (simp add: pool_run_def)
next
  case (Cons n ns)
  define s4 where "s4 = s\<lparr>counter := wrap64 (counter s + n),
                           tasks := (tasks s)[i := \<lparr>t_pc = Idle, t_pending = ns\<rparr>]\<rparr>"
  have r: "replicate (4 * length (n # ns)) i = [i, i, i, i] @ replicate (4 * length ns) i"
    by (simp add: replicate_add [symmetric] del: replicate.simps) (simp add: numeral_eq_Suc)
  have four: "pool_run [i, i, i, i] s = s4"
    using Cons.prems by (simp add: pool_run_def pool_step_def Let_def s4_def)
  have 1: "i < length (tasks s4)" "mu s4 = None" "tasks s4 ! i = \<lparr>t_pc = Idle, t_pending = ns\<rparr>"
    using Cons.prems by (simp_all add: s4_def)
  from Cons.IH [OF 1] obtain c where
    "pool_run (replicate (4 * length ns) i) s4
       = s4\<lparr>counter := c, tasks := (tasks s4)[i := \<lparr>t_pc = Idle, t_pending = []\<rparr>]\<rparr>"
    by blast
  then have "pool_run (replicate (4 * length (n # ns)) i) s
       = s\<lparr>counter := c, tasks := (tasks s)[i := \<lparr>t_pc = Idle, t_pending = []\<rparr>]\<rparr>"
    unfolding r pool_run_append four by (simp add: s4_def)
  then show ?case by blast
qed

lemma complete_from:
  assumes "idle_pool k s" and "k \<le> length (tasks s)"
  shows "\<exists>sched. pool_done (pool_run sched s)"
  using assms
proof (induction "length (tasks s) - k" arbitrary: k s)
  case 0
  then have "pool_done s"
    by (auto simp add: idle_pool_def pool_done_def task_done_def list_all_length)
  then show ?case by (intro exI [of _ "[]"]) (simp add: pool_run_def)
next
  case (Suc m)
  then have k: "k < length (tasks s)" by simp
  define as where "as = t_pending (tasks s ! k)"
  have t: "tasks s ! k = \<lparr>t_pc = Idle, t_pending = as\<rparr>"
    using Suc.prems(1) k by (simp add: idle_pool_def as_def)
  have m: "mu s = None" using Suc.prems(1) by (simp add: idle_pool_def)
  from solo [OF k m t] obtain c where
    c: "pool_run (replicate (4 * length as) k) s
          = s\<lparr>counter := c, tasks := (tasks s)[k := \<lparr>t_pc = Idle, t_pending = []\<rparr>]\<rparr>"
    by blast
  define s' where "s' = s\<lparr>counter := c, tasks := (tasks s)[k := \<lparr>t_pc = Idle, t_pending = []\<rparr>]\<rparr>"
  have 1: "idle_pool (Suc k) s'"
    using Suc.prems(1) k by (auto simp add: idle_pool_def s'_def nth_list_update less_Suc_eq)
  have 2: "Suc k \<le> length (tasks s')" using k by (simp add: s'_def)
  have 3: "m = length (tasks s') - Suc k" using Suc.hyps(2) by (simp add: s'_def)
  from Suc.hyps(1) [OF 3 1 2] obtain sched where "pool_done (pool_run sched s')" by blast
  then have "pool_done (pool_run (replicate (4 * length as) k @ sched) s)"
    by (simp add: pool_run_append c s'_def)
  then show ?case by blast
qed

text \<open>Every pool can be completed: the join is never blocked by the counter.\<close>

lemma complete_schedule_exists: "\<exists>sched. pool_done (pool_run sched (pool_init addss))"
  by (rule complete_from [of 0]) (simp_all add: idle_pool_def pool_init_def)

section \<open>Properties of the workers and the phases\<close>

lemma insert_worker_returned:
  "insert_worker f p g obs w = Returned r \<Longrightarrow>
     reaches_deadline (duration f) obs
   \<and> adds r = adds w @ successful_sizes f p obs
   \<and> map line_message (logged r) = map line_message (logged w) @ failure_messages (duration f) obs
   \<and> batchCount r = batchCount w + int (length (successful_sizes f p obs))
   \<and> (\<forall>n \<in> set (successful_sizes f p obs). 0 \<le> n)"
proof (induction obs arbitrary: w)
  case Nil
  then show ?case by simp
next
  case (Cons ob obs)
  show ?case
  proof (cases "ob_now ob < duration f")
    case False
    then show ?thesis using Cons.prems
      by (simp add: reaches_deadline_def successful_sizes_def failure_messages_def
          before_deadline_def List.map_filter_simps)
  next
    case True
    from Cons.prems True obtain n where n: "currentBatchSize f p ob = Some n" "0 \<le> n"
      by (auto split: option.splits if_splits)
    show ?thesis
    proof (cases "ob_result ob")
      case Ok
      with Cons.prems True n
      have "insert_worker f p g obs (w\<lparr>adds := adds w @ [n], batchCount := batchCount w + 1\<rparr>)
              = Returned r"
        by simp
      from Cons.IH [OF this] show ?thesis using True n Ok
        by (simp add: reaches_deadline_def successful_sizes_def failure_messages_def
            before_deadline_def List.map_filter_simps)
    next
      case (Err e)
      with Cons.prems True n
      have "insert_worker f p g obs (w\<lparr>logged := logged w @ [InsertFailed g (batchCount w) e]\<rparr>)
              = Returned r"
        by simp
      from Cons.IH [OF this] show ?thesis using True n Err
        by (simp add: reaches_deadline_def successful_sizes_def failure_messages_def
            before_deadline_def List.map_filter_simps)
    qed
  qed
qed

lemma insert_worker_returns:
  assumes "reaches_deadline (duration f) obs"
    and "\<forall>ob \<in> set (before_deadline (duration f) obs). \<exists>n\<ge>0. currentBatchSize f p ob = Some n"
  shows "\<exists>r. insert_worker f p g obs w = Returned r"
  using assms
proof (induction obs arbitrary: w)
  case Nil
  then show ?case by (simp add: reaches_deadline_def)
next
  case (Cons ob obs)
  show ?case
  proof (cases "ob_now ob < duration f")
    case False
    then show ?thesis by simp
  next
    case True
    then obtain n where n: "currentBatchSize f p ob = Some n" "0 \<le> n"
      using Cons.prems(2) by (auto simp: before_deadline_def)
    have 1: "reaches_deadline (duration f) obs"
      using Cons.prems(1) True by (simp add: reaches_deadline_def)
    have 2: "\<forall>ob \<in> set (before_deadline (duration f) obs). \<exists>n\<ge>0. currentBatchSize f p ob = Some n"
      using Cons.prems(2) True by (simp add: before_deadline_def)
    show ?thesis using Cons.IH [OF 1 2] True n by (cases "ob_result ob") auto
  qed
qed

lemma search_worker_returned:
  "search_worker d g obs w = Returned r \<Longrightarrow>
     reaches_deadline d obs
   \<and> adds r = adds w @ map (\<lambda>ob. 1) (successful_searches d obs)
   \<and> map line_message (logged r) = map line_message (logged w) @ failure_messages d obs
   \<and> batchCount r = batchCount w + int (length (successful_searches d obs))"
proof (induction obs arbitrary: w)
  case Nil
  then show ?case by simp
next
  case (Cons ob obs)
  show ?case
  proof (cases "ob_now ob < d")
    case False
    then show ?thesis using Cons.prems
      by (simp add: reaches_deadline_def successful_searches_def failure_messages_def
          before_deadline_def List.map_filter_simps)
  next
    case True
    show ?thesis
    proof (cases "ob_result ob")
      case Ok
      with Cons.prems True
      have "search_worker d g obs (w\<lparr>adds := adds w @ [1], batchCount := batchCount w + 1\<rparr>)
              = Returned r"
        by simp
      from Cons.IH [OF this] show ?thesis using True Ok
        by (simp add: reaches_deadline_def successful_searches_def failure_messages_def
            before_deadline_def List.map_filter_simps)
    next
      case (Err e)
      with Cons.prems True
      have "search_worker d g obs (w\<lparr>logged := logged w @ [SearchFailed g (batchCount w) e]\<rparr>)
              = Returned r"
        by simp
      from Cons.IH [OF this] show ?thesis using True Err
        by (simp add: reaches_deadline_def successful_searches_def failure_messages_def
            before_deadline_def List.map_filter_simps)
    qed
  qed
qed

lemma search_worker_returns:
  assumes "reaches_deadline d obs"
  shows "\<exists>r. search_worker d g obs w = Returned r"
  using assms
proof (induction obs arbitrary: w)
  case Nil
  then show ?case by (simp add: reaches_deadline_def)
next
  case (Cons ob obs)
  show ?case
  proof (cases "ob_now ob < d")
    case False
    then show ?thesis by simp
  next
    case True
    have 1: "reaches_deadline d obs"
      using Cons.prems(1) True by (simp add: reaches_deadline_def)
    show ?thesis using Cons.IH [OF 1] True by (cases "ob_result ob") auto
  qed
qed

text \<open>Joining workers that have all returned.\<close>

lemma join_completed:
  assumes "join ws sched = Completed r"
  shows "\<exists>runs. ws = map Returned runs
           \<and> total r = wrap64 (sum_list (map (\<lambda>w. sum_list (adds w)) runs))
           \<and> logs r = map logged runs"
proof -
  have np: "Panicked \<notin> set ws" and nr: "Running \<notin> set ws"
    using assms by (auto simp: join_def split: if_splits)
  define runs where "runs = List.map_filter returned ws"
  have ws: "ws = map Returned runs" using np nr unfolding runs_def
  proof (induction ws)
    case Nil
    then show ?case by (simp add: List.map_filter_simps)
  next
    case (Cons a ws)
    then show ?case by (cases a) (auto simp: List.map_filter_simps)
  qed
  have d: "pool_done (pool_run sched (pool_init (map adds runs)))"
    and r: "r = \<lparr>total = counter (pool_run sched (pool_init (map adds runs))),
                logs = map logged runs\<rparr>"
    using assms np nr by (auto simp: join_def runs_def Let_def split: if_splits)
  have "total r = wrap64 (sum_list (map sum_list (map adds runs)))"
    using pool_counter [OF d] r by simp
  then show ?thesis using ws r by (auto simp: comp_def)
qed

lemma all_returned:
  assumes "\<forall>i \<in> set is. \<exists>r. W i = Returned r \<and> adds r = A i
             \<and> map line_message (logged r) = L i"
  shows "Panicked \<notin> set (map W is)" and "Running \<notin> set (map W is)"
    and "map adds (List.map_filter returned (map W is)) = map A is"
    and "map (map line_message) (map logged (List.map_filter returned (map W is)))
           = map L is"
  using assms by (induction "is") (auto simp: List.map_filter_simps)

lemma join_all_returned:
  assumes "\<forall>i \<in> set is. \<exists>r. W i = Returned r \<and> adds r = A i
             \<and> map line_message (logged r) = L i"
  shows "join (map W is) sched =
           (if pool_done (pool_run sched (pool_init (map A is)))
            then Completed \<lparr>total = wrap64 (sum_list (map sum_list (map A is))),
                   logs = map logged (List.map_filter returned (map W is))\<rparr>
            else Blocked)"
proof -
  note a = all_returned [OF assms]
  show ?thesis
  proof (cases "pool_done (pool_run sched (pool_init (map A is)))")
    case True
    then show ?thesis
      using a(1,2) pool_counter [OF True] by (simp add: join_def Let_def a(3))
  next
    case False
    then show ?thesis using a(1,2) by (simp add: join_def Let_def a(3))
  qed
qed

lemma join_not_completed:
  assumes "i \<in> set is" and "\<forall>r. W i \<noteq> Returned r"
  shows "join (map W is) sched \<noteq> Completed r"
proof -
  have "W i = Panicked \<or> W i = Running" using assms(2) by (cases "W i") auto
  then have "Panicked \<in> set (map W is) \<or> Running \<in> set (map W is)"
    using assms(1) by (metis image_eqI list.set_map)
  then show ?thesis by (auto simp: join_def)
qed

text \<open>The insertion phase.\<close>

lemma insertion_phase_completed:
  assumes "insertion_phase f p obss sched = Completed r"
  shows "total r = wrap64 (inserted_by_all f p obss)"
    and "\<forall>i < nat (numConcurrentGoroutines p). reaches_deadline (duration f) (obs_of obss i)"
    and "map (map line_message) (logs r)
           = map (\<lambda>i. failure_messages (duration f) (obs_of obss i))
               [0 ..< nat (numConcurrentGoroutines p)]"
    and "0 \<le> inserted_by_all f p obss"
proof -
  define W where "W = (\<lambda>i. insert_worker f p i (obs_of obss i) no_run)"
  define N where "N = nat (numConcurrentGoroutines p)"
  have j: "join (map W [0 ..< N]) sched = Completed r"
    using assms by (simp add: insertion_phase_def W_def N_def)
  have ret: "\<exists>w. W i = Returned w" if "i < N" for i
  proof (rule ccontr)
    assume "\<not> (\<exists>w. W i = Returned w)"
    then have "\<forall>w. W i \<noteq> Returned w" by simp
    with join_not_completed [of i "[0 ..< N]" W sched r] that j show False by simp
  qed
  have w: "\<exists>w. W i = Returned w \<and> adds w = successful_sizes f p (obs_of obss i)
             \<and> map line_message (logged w) = failure_messages (duration f) (obs_of obss i)"
    if "i < N" for i
  proof -
    from ret [OF that] obtain w where w: "W i = Returned w" by blast
    from insert_worker_returned [OF w [unfolded W_def]] show ?thesis
      using w by (simp add: no_run_def)
  qed
  then have all: "\<forall>i \<in> set [0 ..< N]. \<exists>w. W i = Returned w
      \<and> adds w = successful_sizes f p (obs_of obss i)
      \<and> map line_message (logged w) = failure_messages (duration f) (obs_of obss i)"
    by simp
  from join_all_returned [OF all, of sched] j
  have r: "r = \<lparr>total = wrap64 (sum_list (map sum_list
                  (map (\<lambda>i. successful_sizes f p (obs_of obss i)) [0 ..< N]))),
               logs = map logged (List.map_filter returned (map W [0 ..< N]))\<rparr>"
    by (simp split: if_splits)
  show "total r = wrap64 (inserted_by_all f p obss)"
    by (subst r) (simp add: inserted_by_all_def N_def comp_def)
  have "map (map line_message) (logs r)
           = map (\<lambda>i. failure_messages (duration f) (obs_of obss i)) [0 ..< N]"
    using all_returned(4) [OF all] by (subst r) simp
  then show "map (map line_message) (logs r)
           = map (\<lambda>i. failure_messages (duration f) (obs_of obss i))
               [0 ..< nat (numConcurrentGoroutines p)]"
    by (simp only: N_def)
  show "\<forall>i < nat (numConcurrentGoroutines p). reaches_deadline (duration f) (obs_of obss i)"
  proof (intro allI impI)
    fix i assume "i < nat (numConcurrentGoroutines p)"
    then obtain w where "W i = Returned w" using ret by (auto simp: N_def)
    from insert_worker_returned [OF this [unfolded W_def]]
    show "reaches_deadline (duration f) (obs_of obss i)" by simp
  qed
  have "0 \<le> sum_list (successful_sizes f p (obs_of obss i))" if "i < N" for i
  proof -
    from ret [OF that] obtain w where "W i = Returned w" by blast
    from insert_worker_returned [OF this [unfolded W_def]]
    show ?thesis by (intro sum_list_nonneg) simp
  qed
  then show "0 \<le> inserted_by_all f p obss"
    unfolding inserted_by_all_def N_def [symmetric] by (intro sum_list_nonneg) auto
qed

lemma insertion_phase_completes:
  assumes "\<forall>i < nat (numConcurrentGoroutines p).
             reaches_deadline (duration f) (obs_of obss i)
           \<and> (\<forall>ob \<in> set (before_deadline (duration f) (obs_of obss i)).
                 \<exists>n\<ge>0. currentBatchSize f p ob = Some n)"
    and "pool_done (pool_run sched (pool_init
           (map (\<lambda>i. successful_sizes f p (obs_of obss i))
              [0 ..< nat (numConcurrentGoroutines p)])))"
  shows "\<exists>r. insertion_phase f p obss sched = Completed r"
proof -
  define W where "W = (\<lambda>i. insert_worker f p i (obs_of obss i) no_run)"
  define N where "N = nat (numConcurrentGoroutines p)"
  have w: "\<exists>w. W i = Returned w \<and> adds w = successful_sizes f p (obs_of obss i)
             \<and> map line_message (logged w) = failure_messages (duration f) (obs_of obss i)"
    if "i < N" for i
  proof -
    from assms(1) that obtain w where w: "W i = Returned w"
      unfolding W_def N_def using insert_worker_returns by blast
    from insert_worker_returned [OF w [unfolded W_def]] show ?thesis
      using w by (simp add: no_run_def)
  qed
  then have all: "\<forall>i \<in> set [0 ..< N]. \<exists>w. W i = Returned w
      \<and> adds w = successful_sizes f p (obs_of obss i)
      \<and> map line_message (logged w) = failure_messages (duration f) (obs_of obss i)"
    by simp
  from join_all_returned [OF all, of sched] assms(2)
  show ?thesis by (simp add: insertion_phase_def W_def N_def)
qed

text \<open>The search phase.\<close>

lemma search_phase_completed:
  assumes "search_phase f p obss sched = Completed r"
  shows "total r = wrap64 (searched_by_all f p obss)"
    and "\<forall>i < nat (numConcurrentGoroutines p).
           reaches_deadline (searchDuration (duration f)) (obs_of obss i)"
    and "map (map line_message) (logs r)
           = map (\<lambda>i. failure_messages (searchDuration (duration f)) (obs_of obss i))
               [0 ..< nat (numConcurrentGoroutines p)]"
proof -
  define d where "d = searchDuration (duration f)"
  define W where "W = (\<lambda>i. search_worker d i (obs_of obss i) no_run)"
  define N where "N = nat (numConcurrentGoroutines p)"
  define A where "A = (\<lambda>i. map (\<lambda>ob. 1 :: int) (successful_searches d (obs_of obss i)))"
  have j: "join (map W [0 ..< N]) sched = Completed r"
    using assms by (simp add: search_phase_def W_def N_def d_def)
  have ret: "\<exists>w. W i = Returned w" if "i < N" for i
  proof (rule ccontr)
    assume "\<not> (\<exists>w. W i = Returned w)"
    then have "\<forall>w. W i \<noteq> Returned w" by simp
    with join_not_completed [of i "[0 ..< N]" W sched r] that j show False by simp
  qed
  have w: "\<exists>w. W i = Returned w \<and> adds w = A i
             \<and> map line_message (logged w) = failure_messages d (obs_of obss i)"
    if "i < N" for i
  proof -
    from ret [OF that] obtain w where w: "W i = Returned w" by blast
    from search_worker_returned [OF w [unfolded W_def]] show ?thesis
      using w by (simp add: no_run_def A_def)
  qed
  then have all: "\<forall>i \<in> set [0 ..< N]. \<exists>w. W i = Returned w \<and> adds w = A i
      \<and> map line_message (logged w) = failure_messages d (obs_of obss i)"
    by simp
  from join_all_returned [OF all, of sched] j
  have r: "r = \<lparr>total = wrap64 (sum_list (map sum_list (map A [0 ..< N]))),
               logs = map logged (List.map_filter returned (map W [0 ..< N]))\<rparr>"
    by (simp split: if_splits)
  have s: "sum_list (A i) = int (length (successful_searches d (obs_of obss i)))" for i
    by (simp add: A_def sum_list_triv)
  have "total r = wrap64 (\<Sum>i \<leftarrow> [0 ..< N]. int (length (successful_searches d (obs_of obss i))))"
    by (subst r) (simp add: comp_def s)
  then show "total r = wrap64 (searched_by_all f p obss)"
    by (simp only: searched_by_all_def N_def d_def)
  have "map (map line_message) (logs r)
           = map (\<lambda>i. failure_messages d (obs_of obss i)) [0 ..< N]"
    using all_returned(4) [OF all] by (subst r) simp
  then show "map (map line_message) (logs r)
           = map (\<lambda>i. failure_messages (searchDuration (duration f)) (obs_of obss i))
               [0 ..< nat (numConcurrentGoroutines p)]"
    by (simp only: N_def d_def)
  show "\<forall>i < nat (numConcurrentGoroutines p).
           reaches_deadline (searchDuration (duration f)) (obs_of obss i)"
  proof (intro allI impI)
    fix i assume "i < nat (numConcurrentGoroutines p)"
    then obtain w where "W i = Returned w" using ret by (auto simp: N_def)
    from search_worker_returned [OF this [unfolded W_def]]
    show "reaches_deadline (searchDuration (duration f)) (obs_of obss i)" by (simp add: d_def)
  qed
qed

lemma search_phase_completes:
  assumes "\<forall>i < nat (numConcurrentGoroutines p).
             reaches_deadline (searchDuration (duration f)) (obs_of obss i)"
    and "pool_done (pool_run sched (pool_init
           (map (\<lambda>i. map (\<lambda>ob. 1) (successful_searches (searchDuration (duration f)) (obs_of obss i)))
              [0 ..< nat (numConcurrentGoroutines p)])))"
  shows "\<exists>r. search_phase f p obss sched = Completed r"
proof -
  define d where "d = searchDuration (duration f)"
  define W where "W = (\<lambda>i. search_worker d i (obs_of obss i) no_run)"
  define N where "N = nat (numConcurrentGoroutines p)"
  define A where "A = (\<lambda>i. map (\<lambda>ob. 1 :: int) (successful_searches d (obs_of obss i)))"
  have w: "\<exists>w. W i = Returned w \<and> adds w = A i
             \<and> map line_message (logged w) = failure_messages d (obs_of obss i)"
    if "i < N" for i
  proof -
    from assms(1) that obtain w where w: "W i = Returned w"
      unfolding W_def N_def d_def using search_worker_returns by blast
    from search_worker_returned [OF w [unfolded W_def]] show ?thesis
      using w by (simp add: no_run_def A_def)
  qed
  then have all: "\<forall>i \<in> set [0 ..< N]. \<exists>w. W i = Returned w \<and> adds w = A i
      \<and> map line_message (logged w) = failure_messages d (obs_of obss i)"
    by simp
  from join_all_returned [OF all, of sched] assms(2)
  show ?thesis by (simp add: search_phase_def W_def N_def d_def A_def)
qed

text \<open>The batch size of a pass, for the four profiles and a clock that does not run backwards.\<close>

lemma profile_values:
  "numConcurrentGoroutines (resolve_pressure s) \<in> {5, 20, 50, 100}"
  "batchSize (resolve_pressure s) \<in> {500, 2000, 5000, 10000}"
  by (simp_all add: resolve_pressure_def)

lemma currentBatchSize_defined:
  assumes "0 \<le> ob_since ob" and "ob_now ob < duration f" and "0 \<le> ob_now ob"
  shows "\<exists>n\<ge>0. currentBatchSize f (resolve_pressure s) ob = Some n"
proof (cases "rampUp f")
  case False
  then show ?thesis using profile_values(2) [of s] by (auto simp: currentBatchSize_def)
next
  case True
  define mw where "mw = numConcurrentGoroutines (resolve_pressure s)"
  define mb where "mb = batchSize (resolve_pressure s)"
  have mw: "1 \<le> mw" "mw \<le> 2 ^ 53" using profile_values(1) [of s] by (auto simp: mw_def)
  have mb: "100 \<le> mb" "mb \<le> 2 ^ 53" using profile_values(2) [of s] by (auto simp: mb_def)
  have t: "0 < duration f" using assms by simp
  have e: "0 \<le> ob_since ob" "ob_since ob \<le> ob_since ob" using assms by simp_all
  from ramp_monotone [OF e(1) e(2) t mw mb] obtain w b where
    wb: "calculateDynamicLoad (ob_since ob) (duration f) mw mb = Some (w, b)" by blast
  have "0 \<le> b"
  proof (cases "ob_since ob < duration f")
    case False
    then show ?thesis using wb mb by (simp add: calculateDynamicLoad_def)
  next
    case lt: True
    then have le: "ob_since ob \<le> duration f" by simp
    have p: "0 \<le> prog (ob_since ob) (duration f)" "prog (ob_since ob) (duration f) \<le> 1"
      using e(1) t le by (auto intro: prog_nonneg prog_le_one)
    have mb1: "1 \<le> mb" using mb by simp
    note sb = startBatchSize_bounds [OF mb1]
    have b0: "0 \<le> max_int 100 (mb sdiv 10)" using sb(1) by simp
    have bm: "max_int 100 (mb sdiv 10) \<le> mb" using sb(2) mb(1) by simp
    note rb = ramp_value_exact [OF p b0 bm mb(2)]
    have "ramp_value (max_int 100 (mb sdiv 10)) mb (Fin (prog (ob_since ob) (duration f))) = Some b"
      using wb by (simp add: calculateDynamicLoad_ramp [OF lt] ramp_progress_eq [OF le t]
          split: option.splits)
    with rb(1) have "b = max_int 100 (mb sdiv 10)
        + trunc (fl (of_int (mb - max_int 100 (mb sdiv 10)) * prog (ob_since ob) (duration f)))"
      by simp
    then show ?thesis using rb(2) b0 by linarith
  qed
  then show ?thesis using True wb by (simp add: currentBatchSize_def mw_def mb_def)
qed

lemma run_finishes:
  assumes "\<not> showHelp f" and "setup_succeeds env" and "deadlines_pass f env"
    and "updates_scheduled f env"
  shows "\<exists>rep. outcome (run f env) = Finished rep
      \<and> r_totalVectorsInserted rep
           = wrap64 (inserted_by_all f (resolve_pressure (pressure f)) (e_insertObs env))
      \<and> r_totalSearchesPerformed rep
           = wrap64 (searched_by_all f (resolve_pressure (pressure f)) (e_searchObs env))"
    and "visited (run f env) = steps_order"
    and "map (map line_message) (stderr (run f env))
          = map (\<lambda>i. failure_messages (duration f) (obs_of (e_insertObs env) i))
               [0 ..< nat (numConcurrentGoroutines (resolve_pressure (pressure f)))]
          @ map (\<lambda>i. failure_messages (searchDuration (duration f))
                                 (obs_of (e_searchObs env) i))
               [0 ..< nat (numConcurrentGoroutines (resolve_pressure (pressure f)))]"
proof -
  define p where "p = resolve_pressure (pressure f)"
  define N where "N = nat (numConcurrentGoroutines p)"
  have live: "reaches_deadline (duration f) (obs_of (e_insertObs env) i)"
      "clock_sane (obs_of (e_insertObs env) i)"
      "reaches_deadline (searchDuration (duration f)) (obs_of (e_searchObs env) i)"
    if "i < N" for i
    using assms(3) that by (simp_all add: deadlines_pass_def list_all_iff N_def p_def)
  have batch: "\<exists>n\<ge>0. currentBatchSize f p ob = Some n"
    if "i < N" and "ob \<in> set (before_deadline (duration f) (obs_of (e_insertObs env) i))" for i ob
  proof -
    have "ob \<in> set (obs_of (e_insertObs env) i)" and now: "ob_now ob < duration f"
      using that(2) unfolding before_deadline_def by (auto dest: set_takeWhileD)
    with live(2) [OF that(1)] have "0 \<le> ob_now ob" "0 \<le> ob_since ob"
      by (auto simp add: clock_sane_def list_all_iff)
    then show ?thesis unfolding p_def using now by (intro currentBatchSize_defined)
  qed
  have sched: "pool_done (pool_run (e_insertSched env) (pool_init
           (map (\<lambda>i. successful_sizes f p (obs_of (e_insertObs env) i)) [0 ..< N])))"
      "pool_done (pool_run (e_searchSched env) (pool_init
           (map (\<lambda>i. map (\<lambda>ob. 1)
                  (successful_searches (searchDuration (duration f)) (obs_of (e_searchObs env) i)))
              [0 ..< N])))"
    using assms(4) by (simp_all add: updates_scheduled_def Let_def p_def N_def)
  obtain ins where ins: "insertion_phase f p (e_insertObs env) (e_insertSched env) = Completed ins"
    using insertion_phase_completes [of p f "e_insertObs env" "e_insertSched env"]
      live(1) batch sched(1) unfolding N_def by blast
  obtain srch where srch: "search_phase f p (e_searchObs env) (e_searchSched env) = Completed srch"
    using search_phase_completes [of p f "e_searchObs env" "e_searchSched env"]
      live(3) sched(2) unfolding N_def by blast
  have run: "run f env = stop_at 10 (logs ins @ logs srch)
              (Finished
                \<lparr>r_pressureLevel = pressureLevel p,
                 r_workers = numConcurrentGoroutines p,
                 r_batchSize = batchSize p,
                 r_totalVectorsInserted = total ins,
                 r_totalSearchesPerformed = total srch,
                 r_insertionTime = e_insertionTime env,
                 r_insertsPerSec = per_second (total ins) (e_insertionTime env),
                 r_searchTime = e_searchTime env,
                 r_searchesPerSec = per_second (total srch) (e_searchTime env)\<rparr>)"
    using assms(1,2) ins srch
    by (simp add: run_def Let_def setup_succeeds_def p_def [symmetric])
  note i = insertion_phase_completed [OF ins] and s = search_phase_completed [OF srch]
  show "\<exists>rep. outcome (run f env) = Finished rep
      \<and> r_totalVectorsInserted rep
           = wrap64 (inserted_by_all f (resolve_pressure (pressure f)) (e_insertObs env))
      \<and> r_totalSearchesPerformed rep
           = wrap64 (searched_by_all f (resolve_pressure (pressure f)) (e_searchObs env))"
    unfolding run p_def [symmetric] using i(1) s(1) by (simp add: stop_at_def)
  show "visited (run f env) = steps_order"
    unfolding run by (simp add: stop_at_def steps_order_def)
  show "map (map line_message) (stderr (run f env))
          = map (\<lambda>i. failure_messages (duration f) (obs_of (e_insertObs env) i))
               [0 ..< nat (numConcurrentGoroutines (resolve_pressure (pressure f)))]
          @ map (\<lambda>i. failure_messages (searchDuration (duration f))
                                 (obs_of (e_searchObs env) i))
               [0 ..< nat (numConcurrentGoroutines (resolve_pressure (pressure f)))]"
    unfolding run p_def [symmetric] using i(3) s(3) by (simp add: stop_at_def)
qed

section \<open>Claims about the ramp-up scheduler\<close>

text \<open>
  Claim C3. Once the elapsed time has reached the total duration (with a positive total
  and maxima of at least one), \<^verbatim>\<open>calculateDynamicLoad\<close> returns exactly the pair of the
  configured maxima: the first branch of the function, which involves no floating-point
  arithmetic at all.
\<close>

theorem calculateDynamicLoad_full_at_deadline:
  assumes "elapsed \<ge> totalDuration" and "totalDuration > 0"
    and "maxWorkers \<ge> 1" and "maxBatchSize \<ge> 1"
  shows "calculateDynamicLoad elapsed totalDuration maxWorkers maxBatchSize
           = Some (maxWorkers, maxBatchSize)"
  using assms(1) by (simp add: calculateDynamicLoad_def)

theorem calculateDynamicLoad_full_at_deadline_witness:
  "(45000000000 :: int) \<ge> 30000000000 \<and> (30000000000 :: int) > 0 \<and> (20 :: int) \<ge> 1
     \<and> (2000 :: int) \<ge> 1
     \<and> calculateDynamicLoad 45000000000 30000000000 20 2000 = Some (20, 2000)"
  using calculateDynamicLoad_full_at_deadline [of 30000000000 45000000000 20 2000] by simp

text \<open>
  Claim C5. At elapsed time zero, for a positive total duration and maxima of at least
  one (that are 64-bit integers), the function returns the starting point of the ramp:
  the larger of 1 and a tenth of the worker maximum, and the larger of 100 and a tenth of
  the batch maximum, both tenths by integer division.
\<close>

theorem calculateDynamicLoad_at_start:
  assumes "totalDuration > 0" and "maxWorkers \<ge> 1" and "maxBatchSize \<ge> 1"
    and "is_int64 maxWorkers" and "is_int64 maxBatchSize"
  shows "calculateDynamicLoad 0 totalDuration maxWorkers maxBatchSize
           = Some (max 1 (maxWorkers div 10), max 100 (maxBatchSize div 10))"
  using assms by (rule load_at_start)

theorem calculateDynamicLoad_at_start_witness:
  "(30000000000 :: int) > 0 \<and> (50 :: int) \<ge> 1 \<and> (5000 :: int) \<ge> 1
     \<and> is_int64 50 \<and> is_int64 5000
     \<and> calculateDynamicLoad 0 30000000000 50 5000 = Some (5, 500)"
  using calculateDynamicLoad_at_start [of 30000000000 50 5000] by (simp add: is_int64_def)

text \<open>
  Claim C4 as stated (both components non-decreasing in the elapsed time for every
  maximum of at least one) fails in two ways. For a batch maximum below 100 the ramp
  starts at the floor of 100 and runs down towards the maximum: with a maximum of 50
  the batch is 100 at elapsed time 0 and 75 at half time. And for maxima above \<open>2\<^sup>5\<^sup>3\<close>
  the conversion to \<^verbatim>\<open>float64\<close> can round the distance to the maximum upwards, so that
  the value one nanosecond before a deadline of \<open>2\<^sup>5\<^sup>3 + 1\<close> nanoseconds exceeds the
  maximum returned at the deadline.
\<close>

theorem calculateDynamicLoad_not_monotone:
  "(0 :: int) \<le> 5 \<and> (10 :: int) > 0 \<and> (1 :: int) \<ge> 1 \<and> (50 :: int) \<ge> 1
     \<and> calculateDynamicLoad 0 10 1 50 = Some (1, 100)
     \<and> calculateDynamicLoad 5 10 1 50 = Some (1, 75)
     \<and> \<not> (100 :: int) \<le> 75
     \<and> (9007199254740992 :: int) \<le> 9007199254740993
     \<and> calculateDynamicLoad 9007199254740992 9007199254740993 10007999171934438 1000
           = Some (10007999171934439, 1000)
     \<and> calculateDynamicLoad 9007199254740993 9007199254740993 10007999171934438 1000
           = Some (10007999171934438, 1000)
     \<and> \<not> (10007999171934439 :: int) \<le> 10007999171934438"
  by code_simp

text \<open>
  Claim C4, as amended. For a positive total duration, a worker maximum between 1 and
  \<open>2\<^sup>5\<^sup>3\<close> and a batch maximum between 100 and \<open>2\<^sup>5\<^sup>3\<close>, both components of the result
  are non-decreasing in the elapsed time over all elapsed times from zero on, across
  the deadline included.
\<close>

theorem calculateDynamicLoad_monotone:
  assumes "0 \<le> elapsed1" and "elapsed1 \<le> elapsed2" and "totalDuration > 0"
    and "1 \<le> maxWorkers" and "maxWorkers \<le> 2 ^ 53"
    and "100 \<le> maxBatchSize" and "maxBatchSize \<le> 2 ^ 53"
  shows "\<exists>w1 b1 w2 b2.
           calculateDynamicLoad elapsed1 totalDuration maxWorkers maxBatchSize = Some (w1, b1)
         \<and> calculateDynamicLoad elapsed2 totalDuration maxWorkers maxBatchSize = Some (w2, b2)
         \<and> w1 \<le> w2 \<and> b1 \<le> b2"
  using assms by (rule ramp_monotone)

theorem calculateDynamicLoad_monotone_witness:
  "(0 :: int) \<le> 3000000000 \<and> (3000000000 :: int) \<le> 15000000000 \<and> (30000000000 :: int) > 0
     \<and> (1 :: int) \<le> 20 \<and> (20 :: int) \<le> 2 ^ 53 \<and> (100 :: int) \<le> 2000 \<and> (2000 :: int) \<le> 2 ^ 53
     \<and> (\<exists>w1 b1 w2 b2.
           calculateDynamicLoad 3000000000 30000000000 20 2000 = Some (w1, b1)
         \<and> calculateDynamicLoad 15000000000 30000000000 20 2000 = Some (w2, b2)
         \<and> w1 \<le> w2 \<and> b1 \<le> b2)"
  using calculateDynamicLoad_monotone [of 3000000000 15000000000 30000000000 20 2000] by simp

text \<open>
  Claim C10 as stated (the worker count never exceeds the maximum, for every maximum of
  at least one) fails beyond \<open>2\<^sup>5\<^sup>3\<close>, where \<^verbatim>\<open>float64\<close> no longer holds every integer:
  with a deadline of \<open>2\<^sup>5\<^sup>3 + 1\<close> nanoseconds and one nanosecond to go, the progress is
  rounded to 1.0, the distance \<open>2\<^sup>5\<^sup>3 + 3\<close> from the start to the maximum is rounded to
  \<open>2\<^sup>5\<^sup>3 + 4\<close>, and the count is the maximum plus one.
\<close>

theorem calculateDynamicLoad_workers_overshoot:
  "(9007199254740992 :: int) \<ge> 0 \<and> (9007199254740993 :: int) > 0
     \<and> (10007999171934438 :: int) \<ge> 1 \<and> (1000 :: int) \<ge> 1
     \<and> calculateDynamicLoad 9007199254740992 9007199254740993 10007999171934438 1000
           = Some (10007999171934439, 1000)
     \<and> \<not> (10007999171934439 :: int) \<le> 10007999171934438"
  by code_simp

text \<open>
  Claim C10, as amended. For an elapsed time of at least zero, a positive total
  duration, a worker maximum between 1 and \<open>2\<^sup>5\<^sup>3\<close> and a batch maximum of at least one,
  the worker count lies between one and the worker maximum. The batch component has no
  such bound: with a batch maximum below 100 it exceeds the maximum at elapsed time zero.
\<close>

theorem calculateDynamicLoad_workers_bounded:
  assumes "0 \<le> elapsed" and "totalDuration > 0"
    and "1 \<le> maxWorkers" and "maxWorkers \<le> 2 ^ 53"
    and "1 \<le> maxBatchSize" and "is_int64 maxBatchSize"
  shows "\<exists>w b. calculateDynamicLoad elapsed totalDuration maxWorkers maxBatchSize = Some (w, b)
           \<and> 1 \<le> w \<and> w \<le> maxWorkers
           \<and> (elapsed = 0 \<and> maxBatchSize < 100 \<longrightarrow> maxBatchSize < b)"
proof -
  obtain w b where wb:
    "calculateDynamicLoad elapsed totalDuration maxWorkers maxBatchSize = Some (w, b)"
    "1 \<le> w" "w \<le> maxWorkers"
    using workers_bounded [OF assms] by blast
  have "maxBatchSize < b" if "elapsed = 0" and "maxBatchSize < 100"
  proof -
    have "is_int64 maxWorkers" using assms(3,4) by (simp add: is_int64_def)
    from load_at_start [OF assms(2,3,5) this assms(6)] wb(1) that
    show ?thesis by auto
  qed
  with wb show ?thesis by blast
qed

theorem calculateDynamicLoad_workers_bounded_witness:
  "(0 :: int) \<le> 0 \<and> (10 :: int) > 0 \<and> (1 :: int) \<le> 1 \<and> (1 :: int) \<le> 2 ^ 53
     \<and> (1 :: int) \<le> 50 \<and> is_int64 50
     \<and> (\<exists>w b. calculateDynamicLoad 0 10 1 50 = Some (w, b) \<and> 1 \<le> w \<and> w \<le> 1
            \<and> ((0 :: int) = 0 \<and> (50 :: int) < 100 \<longrightarrow> 50 < b))"
  using calculateDynamicLoad_workers_bounded [of 0 10 1 50] by (simp add: is_int64_def)

section \<open>Claims about the resolver, the throughput, the search deadline and fatal errors\<close>

text \<open>
  Claim C6 as stated (any casing of a level name resolves to the profile of that level)
  fails: \<^verbatim>\<open>switch *pressure\<close> compares the flag with the four lower-case names exactly
  and folds no case, so \<^verbatim>\<open>LOW\<close> falls to the default branch and gets 20 workers and 2000
  per batch, where the case-insensitive resolver of the specification gives 5 and 500.
\<close>

theorem resolve_pressure_ignores_case_counterexample:
  "map ascii_lower ''LOW'' = ''low'' \<and> spec_resolve_pressure ''LOW'' = (5, 500)
     \<and> (numConcurrentGoroutines (resolve_pressure ''LOW''), batchSize (resolve_pressure ''LOW''))
          = (20, 2000)
     \<and> (5 :: int, 500 :: int) \<noteq> (20, 2000)"
  by code_simp

text \<open>
  Claim C6, as amended. The resolver is total and case-sensitive: \<open>low\<close>, \<open>medium\<close>,
  \<open>high\<close> and \<open>extreme\<close> resolve to 5 workers and 500 per batch, 20 and 2000, 50 and
  5000, 100 and 10000; every other string, the empty one and other casings included,
  resolves to the medium default of 20 and 2000; and on strings that are already in
  lower case the resolver agrees with the case-insensitive one of the specification.
\<close>

theorem resolve_pressure_total:
  "resolve_pressure ''low''
      = \<lparr>pressureLevel = ''LOW'', numConcurrentGoroutines = 5, batchSize = 500\<rparr>
   \<and> resolve_pressure ''medium''
      = \<lparr>pressureLevel = ''MEDIUM'', numConcurrentGoroutines = 20, batchSize = 2000\<rparr>
   \<and> resolve_pressure ''high''
      = \<lparr>pressureLevel = ''HIGH'', numConcurrentGoroutines = 50, batchSize = 5000\<rparr>
   \<and> resolve_pressure ''extreme''
      = \<lparr>pressureLevel = ''EXTREME'', numConcurrentGoroutines = 100, batchSize = 10000\<rparr>
   \<and> (level \<notin> {''low'', ''medium'', ''high'', ''extreme''} \<longrightarrow>
        resolve_pressure level
          = \<lparr>pressureLevel = ''MEDIUM (default)'', numConcurrentGoroutines = 20,
              batchSize = 2000\<rparr>)
   \<and> (map ascii_lower level = level \<longrightarrow>
        (numConcurrentGoroutines (resolve_pressure level), batchSize (resolve_pressure level))
          = spec_resolve_pressure level)"
  by (simp add: resolve_pressure_def spec_resolve_pressure_def)

theorem resolve_pressure_total_witness:
  "''LOW'' \<notin> {''low'', ''medium'', ''high'', ''extreme''}
   \<and> resolve_pressure ''LOW''
        = \<lparr>pressureLevel = ''MEDIUM (default)'', numConcurrentGoroutines = 20, batchSize = 2000\<rparr>
   \<and> map ascii_lower ''high'' = ''high''
   \<and> (numConcurrentGoroutines (resolve_pressure ''high''), batchSize (resolve_pressure ''high''))
        = spec_resolve_pressure ''high''"
proof -
  have a: "''LOW'' \<notin> {''low'', ''medium'', ''high'', ''extreme''}" by simp
  have b: "map ascii_lower ''high'' = ''high''" by code_simp
  have 1: "resolve_pressure ''LOW''
        = \<lparr>pressureLevel = ''MEDIUM (default)'', numConcurrentGoroutines = 20, batchSize = 2000\<rparr>"
    using resolve_pressure_total [of "''LOW''"] a by blast
  have 2: "(numConcurrentGoroutines (resolve_pressure ''high''), batchSize (resolve_pressure ''high''))
        = spec_resolve_pressure ''high''"
    using resolve_pressure_total [of "''high''"] b by blast
  show ?thesis using a b 1 2 by blast
qed

text \<open>
  Claim C7 as stated (with an elapsed time of zero the division is guarded and the
  result is zero or NaN) fails: the program divides without a check, and 1000
  operations in an elapsed time of zero give plus infinity, which is neither.
\<close>

theorem per_second_unguarded_counterexample:
  "per_second 1000 0 = PInf \<and> PInf \<noteq> Fin 0 \<and> PInf \<noteq> NaN"
  by code_simp

text \<open>
  Claim C7, as amended. The throughput is the \<^verbatim>\<open>float64\<close> quotient of the count by
  \<^verbatim>\<open>elapsed.Seconds()\<close>: for a positive elapsed time it is a finite number within a
  relative error of \<open>2\<^sup>-\<^sup>5\<^sup>0\<close> of the exact quotient of the count by the elapsed seconds,
  and 1000 operations in two seconds give exactly 500. The division is not guarded:
  for an elapsed time of zero the result is NaN when the count is zero, plus infinity
  when the count is positive and minus infinity when it is negative.
\<close>

theorem per_second_value:
  "(0 < elapsed \<and> is_int64 elapsed \<longrightarrow>
      (\<exists>q. per_second totalOps elapsed = Fin q
         \<and> \<bar>q - of_int totalOps * 10 ^ 9 / of_int elapsed\<bar>
             \<le> \<bar>of_int totalOps * 10 ^ 9 / of_int elapsed\<bar> / 2 ^ 50))
   \<and> per_second 1000 2000000000 = Fin 500
   \<and> per_second totalOps 0
        = (if totalOps = 0 then NaN else if 0 < totalOps then PInf else NInf)"
proof (intro conjI impI)
  assume "0 < elapsed \<and> is_int64 elapsed"
  then show "\<exists>q. per_second totalOps elapsed = Fin q
         \<and> \<bar>q - of_int totalOps * 10 ^ 9 / of_int elapsed\<bar>
             \<le> \<bar>of_int totalOps * 10 ^ 9 / of_int elapsed\<bar> / 2 ^ 50"
    using per_second_accurate [of elapsed totalOps] by blast
next
  show "per_second 1000 2000000000 = Fin 500" by code_simp
next
  show "per_second totalOps 0
        = (if totalOps = 0 then NaN else if 0 < totalOps then PInf else NInf)"
    by (rule per_second_zero)
qed

theorem per_second_value_witness:
  "(0 :: int) < 1500000000 \<and> is_int64 1500000000
   \<and> (\<exists>q. per_second 5000 1500000000 = Fin q
         \<and> \<bar>q - of_int 5000 * 10 ^ 9 / of_int 1500000000\<bar>
             \<le> \<bar>of_int 5000 * 10 ^ 9 / of_int 1500000000\<bar> / 2 ^ 50)"
proof -
  have h: "(0 :: int) < 1500000000 \<and> is_int64 1500000000" by (simp add: is_int64_def)
  from per_second_value [of 1500000000 5000] h show ?thesis by blast
qed

text \<open>
  Claim C8. The search phase runs against a deadline of the configured duration divided
  by four: the division is Go's integer division of the nanosecond count, which
  differs from the exact quarter by less than four nanoseconds in the product and not at
  all when four divides the duration. A search worker leaves its loop at the first
  clock reading that is not before this deadline, and a completed search phase has
  counted exactly the successful searches that started before it.
\<close>

theorem search_deadline_is_quarter:
  "searchDuration d = d sdiv 4
   \<and> \<bar>d - 4 * searchDuration d\<bar> < 4
   \<and> (4 dvd d \<longrightarrow> 4 * searchDuration d = d)
   \<and> (\<not> ob_now ob < d sdiv 4 \<longrightarrow>
        search_worker (searchDuration d) g (ob # obs) w = Returned w)
   \<and> (search_phase f p obss sched = Completed r \<longrightarrow>
        list_all (\<lambda>i. reaches_deadline (duration f sdiv 4) (obs_of obss i))
          [0 ..< nat (numConcurrentGoroutines p)]
      \<and> total r = wrap64 (\<Sum>i \<leftarrow> [0 ..< nat (numConcurrentGoroutines p)].
           int (length (successful_searches (duration f sdiv 4) (obs_of obss i)))))"
proof (intro conjI impI)
  show "searchDuration d = d sdiv 4" by (simp add: searchDuration_def)
  show "\<bar>d - 4 * searchDuration d\<bar> < 4" by (rule searchDuration_props)
  show "4 * searchDuration d = d" if "4 dvd d" using that by (rule searchDuration_props)
  show "search_worker (searchDuration d) g (ob # obs) w = Returned w" if "\<not> ob_now ob < d sdiv 4"
    using that by (simp add: searchDuration_def)
next
  assume c: "search_phase f p obss sched = Completed r"
  note s = search_phase_completed [OF c]
  show "list_all (\<lambda>i. reaches_deadline (duration f sdiv 4) (obs_of obss i))
          [0 ..< nat (numConcurrentGoroutines p)]"
    using s(2) by (simp add: list_all_iff searchDuration_def)
  show "total r = wrap64 (\<Sum>i \<leftarrow> [0 ..< nat (numConcurrentGoroutines p)].
           int (length (successful_searches (duration f sdiv 4) (obs_of obss i))))"
    using s(1) by (simp add: searched_by_all_def searchDuration_def)
qed

theorem search_deadline_is_quarter_witness:
  "(4 :: int) dvd 1000000000 \<and> 4 * searchDuration 1000000000 = 1000000000
   \<and> \<not> ob_now \<lparr>ob_now = 250000000, ob_since = 0, ob_result = Ok\<rparr> < 1000000000 sdiv 4
   \<and> search_worker (searchDuration 1000000000) 0
        [\<lparr>ob_now = 250000000, ob_since = 0, ob_result = Ok\<rparr>] no_run = Returned no_run
   \<and> search_phase example_flags (resolve_pressure ''low'') (replicate 5 example_search_obs)
        one_by_one
        = Completed \<lparr>total = 10, logs = map (\<lambda>g. [SearchFailed g 1 ''unavailable'']) [0, 1, 2, 3, 4]\<rparr>
   \<and> total \<lparr>total = 10, logs = map (\<lambda>g. [SearchFailed g 1 ''unavailable'']) [0, 1, 2, 3, 4]\<rparr>
        = wrap64 (\<Sum>i \<leftarrow> [0 ..< nat (numConcurrentGoroutines (resolve_pressure ''low''))].
           int (length (successful_searches (duration example_flags sdiv 4)
                  (obs_of (replicate 5 example_search_obs) i))))"
proof -
  have h1: "(4 :: int) dvd 1000000000" by simp
  have h2: "\<not> ob_now \<lparr>ob_now = 250000000, ob_since = 0, ob_result = Ok\<rparr> < 1000000000 sdiv 4"
    by code_simp
  have h3: "search_phase example_flags (resolve_pressure ''low'')
              (replicate 5 example_search_obs) one_by_one
        = Completed \<lparr>total = 10, logs = map (\<lambda>g. [SearchFailed g 1 ''unavailable'']) [0, 1, 2, 3, 4]\<rparr>"
    by code_simp
  from search_deadline_is_quarter [of 1000000000
      "\<lparr>ob_now = 250000000, ob_since = 0, ob_result = Ok\<rparr>" 0 "[]" no_run
      example_flags "resolve_pressure ''low''" "replicate 5 example_search_obs" one_by_one
      "\<lparr>total = 10, logs = map (\<lambda>g. [SearchFailed g 1 ''unavailable'']) [0, 1, 2, 3, 4]\<rparr>"]
    h1 h2 h3
  show ?thesis by blast
qed

text \<open>
  Claim C9. When the call of Connect, CreateCollection, Flush, CreateIndex,
  LoadCollection or Cleanup is reached and returns an error, the run ends there with
  \<^verbatim>\<open>log.Fatalf\<close>: the exit status is 1, the steps visited are those up to the failing one
  and none after it, and no report is produced. A failure of Connect thus stops before
  the insertion phase and a failure of CreateIndex before the search phase.
\<close>

theorem fatal_errors_abort_run:
  assumes "st \<in> {Connect, CreateCollection, Flush, CreateIndex, LoadCollection, Cleanup}"
    and "st \<in> set (visited (run f env))" and "call_failed env st"
  shows "(\<exists>msg. outcome (run f env) = Fatal msg)
       \<and> exit_status (outcome (run f env)) = Some 1
       \<and> (\<forall>rep. outcome (run f env) \<noteq> Finished rep)
       \<and> visited (run f env) = takeWhile (\<lambda>s. s \<noteq> st) steps_order @ [st]
       \<and> FinalReport \<notin> set (visited (run f env))
       \<and> (st = Connect \<longrightarrow> InsertPhase \<notin> set (visited (run f env)))
       \<and> (st = CreateIndex \<longrightarrow> SearchPhase \<notin> set (visited (run f env)))"
proof -
  from run_fatal [OF assms] obtain msg where
    out: "outcome (run f env) = Fatal msg"
    and vis: "visited (run f env) = takeWhile (\<lambda>s. s \<noteq> st) steps_order @ [st]"
    by blast
  have "FinalReport \<notin> set (takeWhile (\<lambda>s. s \<noteq> st) steps_order @ [st])"
    "st = Connect \<longrightarrow> InsertPhase \<notin> set (takeWhile (\<lambda>s. s \<noteq> st) steps_order @ [st])"
    "st = CreateIndex \<longrightarrow> SearchPhase \<notin> set (takeWhile (\<lambda>s. s \<noteq> st) steps_order @ [st])"
    using assms(1) by (auto simp add: steps_order_def)
  then show ?thesis using out vis by simp
qed

theorem fatal_errors_abort_run_witness:
  "CreateIndex \<in> {Connect, CreateCollection, Flush, CreateIndex, LoadCollection, Cleanup}
   \<and> CreateIndex \<in> set (visited (run example_flags
        (example_env\<lparr>e_createIndex := Err ''index build failed''\<rparr>)))
   \<and> call_failed (example_env\<lparr>e_createIndex := Err ''index build failed''\<rparr>) CreateIndex
   \<and> outcome (run example_flags (example_env\<lparr>e_createIndex := Err ''index build failed''\<rparr>))
        = Fatal ''Failed to create index: index build failed''
   \<and> exit_status (outcome (run example_flags
        (example_env\<lparr>e_createIndex := Err ''index build failed''\<rparr>))) = Some 1
   \<and> visited (run example_flags (example_env\<lparr>e_createIndex := Err ''index build failed''\<rparr>))
        = [Connect, EnsureCleanCollection, CreateCollection, InsertPhase, Flush, CreateIndex]
   \<and> SearchPhase \<notin> set (visited (run example_flags
        (example_env\<lparr>e_createIndex := Err ''index build failed''\<rparr>)))"
proof -
  define env where "env = example_env\<lparr>e_createIndex := Err ''index build failed''\<rparr>"
  have h1: "CreateIndex \<in> {Connect, CreateCollection, Flush, CreateIndex, LoadCollection, Cleanup}"
    by simp
  have v: "visited (run example_flags env)
        = [Connect, EnsureCleanCollection, CreateCollection, InsertPhase, Flush, CreateIndex]"
    unfolding env_def by code_simp
  have o: "outcome (run example_flags env) = Fatal ''Failed to create index: index build failed''"
    unfolding env_def by code_simp
  have h2: "CreateIndex \<in> set (visited (run example_flags env))" by (simp add: v)
  have h3: "call_failed env CreateIndex" by (simp add: env_def)
  from fatal_errors_abort_run [OF h1 h2 h3] h1 h2 h3 v o
  show ?thesis unfolding env_def by simp
qed

lemma sum_list_const_upt: "(\<Sum>i \<leftarrow> [0 ..< N]. (c :: int)) = int N * c"
  by (simp add: sum_list_triv)

lemma inserted_by_all_uniform:
  assumes "list_all (\<lambda>i. successful_sizes f p (obs_of obss i) = replicate M S)
             [0 ..< nat (numConcurrentGoroutines p)]"
  shows "inserted_by_all f p obss = int (nat (numConcurrentGoroutines p)) * int M * S"
proof -
  have "map (\<lambda>i. sum_list (successful_sizes f p (obs_of obss i)))
            [0 ..< nat (numConcurrentGoroutines p)]
      = map (\<lambda>i. int M * S) [0 ..< nat (numConcurrentGoroutines p)]"
    using assms by (auto simp add: list_all_iff sum_list_replicate)
  then show ?thesis
    unfolding inserted_by_all_def by (simp only: sum_list_const_upt)
qed

lemma searched_by_all_nonneg: "0 \<le> searched_by_all f p obss"
  unfolding searched_by_all_def by (intro sum_list_nonneg) auto

lemma wrap64_nonneg: "0 \<le> x \<Longrightarrow> x < 2 ^ 63 \<Longrightarrow> wrap64 x = x"
  by (intro wrap64_id) (simp add: is_int64_def)

section \<open>Claims about the workers and the counter\<close>

text \<open>
  Claim C1. When a phase has completed (all workers have returned and the join has
  let the orchestrator go on), the counter it reports is the sum of the batch sizes of
  the passes whose call succeeded, whatever the order in which the scheduler let the
  goroutines take the mutex and update the counter: nothing is counted twice, nothing
  is lost, and a pass whose call failed adds nothing. The counter is an \<^verbatim>\<open>int64\<close>: the
  equality is that of 64-bit integers, and it is the equality of integers as long as
  the sum is below \<open>2\<^sup>6\<^sup>3\<close>. In particular, if each of the \<open>N\<close> workers completes \<open>M\<close>
  units of size \<open>S\<close>, the counter is \<open>N * M * S\<close>. The same holds of the search phase,
  where every unit has size one.
\<close>

theorem counter_equals_sum_of_successes:
  "(insertion_phase f p obss sched = Completed r \<longrightarrow>
       total r = wrap64 (inserted_by_all f p obss)
     \<and> (inserted_by_all f p obss < 2 ^ 63 \<longrightarrow> total r = inserted_by_all f p obss)
     \<and> (list_all (\<lambda>i. successful_sizes f p (obs_of obss i) = replicate M S)
           [0 ..< nat (numConcurrentGoroutines p)]
         \<and> int (nat (numConcurrentGoroutines p)) * int M * S < 2 ^ 63
        \<longrightarrow> total r = int (nat (numConcurrentGoroutines p)) * int M * S))
   \<and> (search_phase f p obss sched = Completed r \<longrightarrow>
       total r = wrap64 (searched_by_all f p obss)
     \<and> (searched_by_all f p obss < 2 ^ 63 \<longrightarrow> total r = searched_by_all f p obss))"
proof (intro conjI impI)
  assume c: "insertion_phase f p obss sched = Completed r"
  note i = insertion_phase_completed [OF c]
  show t: "total r = wrap64 (inserted_by_all f p obss)" by (rule i(1))
  show "total r = inserted_by_all f p obss" if "inserted_by_all f p obss < 2 ^ 63"
    using t wrap64_nonneg [OF i(4) that] by simp
  show "total r = int (nat (numConcurrentGoroutines p)) * int M * S"
    if u: "list_all (\<lambda>i. successful_sizes f p (obs_of obss i) = replicate M S)
             [0 ..< nat (numConcurrentGoroutines p)]
           \<and> int (nat (numConcurrentGoroutines p)) * int M * S < 2 ^ 63"
  proof -
    have e: "inserted_by_all f p obss = int (nat (numConcurrentGoroutines p)) * int M * S"
      using u by (intro inserted_by_all_uniform) simp
    then have "inserted_by_all f p obss < 2 ^ 63" using u by simp
    from wrap64_nonneg [OF i(4) this] t e show ?thesis by simp
  qed
next
  assume c: "search_phase f p obss sched = Completed r"
  note s = search_phase_completed [OF c]
  show t: "total r = wrap64 (searched_by_all f p obss)" by (rule s(1))
  show "total r = searched_by_all f p obss" if "searched_by_all f p obss < 2 ^ 63"
    using t wrap64_nonneg [OF searched_by_all_nonneg that] by simp
qed

theorem counter_equals_sum_of_successes_witness:
  "insertion_phase example_flags (resolve_pressure ''low'') (replicate 5 example_obs) round_robin
     = Completed \<lparr>total = 5000, logs = map (\<lambda>g. [InsertFailed g 1 ''timeout'']) [0, 1, 2, 3, 4]\<rparr>
   \<and> insertion_phase example_flags (resolve_pressure ''low'') (replicate 5 example_obs) one_by_one
     = Completed \<lparr>total = 5000, logs = map (\<lambda>g. [InsertFailed g 1 ''timeout'']) [0, 1, 2, 3, 4]\<rparr>
   \<and> list_all (\<lambda>i. successful_sizes example_flags (resolve_pressure ''low'')
                    (obs_of (replicate 5 example_obs) i) = replicate 2 500)
        [0 ..< nat (numConcurrentGoroutines (resolve_pressure ''low''))]
   \<and> int (nat (numConcurrentGoroutines (resolve_pressure ''low''))) * int 2 * 500 < 2 ^ 63
   \<and> total \<lparr>total = 5000, logs = map (\<lambda>g. [InsertFailed g 1 ''timeout'']) [0, 1, 2, 3, 4]\<rparr>
       = int (nat (numConcurrentGoroutines (resolve_pressure ''low''))) * int 2 * 500
   \<and> search_phase example_flags (resolve_pressure ''low'') (replicate 5 example_search_obs)
        round_robin
     = Completed \<lparr>total = 10, logs = map (\<lambda>g. [SearchFailed g 1 ''unavailable'']) [0, 1, 2, 3, 4]\<rparr>
   \<and> total \<lparr>total = 10, logs = map (\<lambda>g. [SearchFailed g 1 ''unavailable'']) [0, 1, 2, 3, 4]\<rparr>
       = wrap64 (searched_by_all example_flags (resolve_pressure ''low'')
                   (replicate 5 example_search_obs))"
proof -
  have h1: "insertion_phase example_flags (resolve_pressure ''low'') (replicate 5 example_obs)
              round_robin
     = Completed \<lparr>total = 5000, logs = map (\<lambda>g. [InsertFailed g 1 ''timeout'']) [0, 1, 2, 3, 4]\<rparr>"
    by code_simp
  have h2: "insertion_phase example_flags (resolve_pressure ''low'') (replicate 5 example_obs)
              one_by_one
     = Completed \<lparr>total = 5000, logs = map (\<lambda>g. [InsertFailed g 1 ''timeout'']) [0, 1, 2, 3, 4]\<rparr>"
    by code_simp
  have h3: "list_all (\<lambda>i. successful_sizes example_flags (resolve_pressure ''low'')
                    (obs_of (replicate 5 example_obs) i) = replicate 2 500)
        [0 ..< nat (numConcurrentGoroutines (resolve_pressure ''low''))]"
    by code_simp
  have h4: "int (nat (numConcurrentGoroutines (resolve_pressure ''low''))) * int 2 * 500 < 2 ^ 63"
    by code_simp
  have h5: "search_phase example_flags (resolve_pressure ''low'') (replicate 5 example_search_obs)
        round_robin
     = Completed \<lparr>total = 10, logs = map (\<lambda>g. [SearchFailed g 1 ''unavailable'']) [0, 1, 2, 3, 4]\<rparr>"
    by code_simp
  from counter_equals_sum_of_successes [where f = example_flags
      and p = "resolve_pressure ''low''" and obss = "replicate 5 example_obs"
      and sched = round_robin and M = 2 and S = 500
      and r = "\<lparr>total = 5000, logs = map (\<lambda>g. [InsertFailed g 1 ''timeout'']) [0, 1, 2, 3, 4]\<rparr>"]
    h1 h3 h4
  have c1: "total \<lparr>total = 5000, logs = map (\<lambda>g. [InsertFailed g 1 ''timeout'']) [0, 1, 2, 3, 4]\<rparr>
       = int (nat (numConcurrentGoroutines (resolve_pressure ''low''))) * int 2 * 500"
    by blast
  from counter_equals_sum_of_successes [where f = example_flags
      and p = "resolve_pressure ''low''" and obss = "replicate 5 example_search_obs"
      and sched = round_robin
      and r = "\<lparr>total = 10, logs = map (\<lambda>g. [SearchFailed g 1 ''unavailable'']) [0, 1, 2, 3, 4]\<rparr>"]
    h5
  have c2: "total \<lparr>total = 10, logs = map (\<lambda>g. [SearchFailed g 1 ''unavailable'']) [0, 1, 2, 3, 4]\<rparr>
       = wrap64 (searched_by_all example_flags (resolve_pressure ''low'')
                   (replicate 5 example_search_obs))"
    by blast
  show ?thesis using h1 h2 h3 h4 h5 c1 c2 by blast
qed

lemma setup_succeeds_sched [simp]:
  "setup_succeeds (env\<lparr>e_insertSched := s1, e_searchSched := s2\<rparr>) = setup_succeeds env"
  by (simp add: setup_succeeds_def ensure_clean_def split: sum.splits)

lemma deadlines_pass_sched [simp]:
  "deadlines_pass f (env\<lparr>e_insertSched := s1, e_searchSched := s2\<rparr>) = deadlines_pass f env"
  by (simp add: deadlines_pass_def)

lemma schedules_exist:
  "\<exists>s1 s2. updates_scheduled f (env\<lparr>e_insertSched := s1, e_searchSched := s2\<rparr>)"
proof -
  define p where "p = resolve_pressure (pressure f)"
  define ids where "ids = [0 ..< nat (numConcurrentGoroutines p)]"
  obtain s1 where 1: "pool_done (pool_run s1 (pool_init
      (map (\<lambda>i. successful_sizes f p (obs_of (e_insertObs env) i)) ids)))"
    using complete_schedule_exists by blast
  obtain s2 where 2: "pool_done (pool_run s2 (pool_init
      (map (\<lambda>i. map (\<lambda>ob. 1)
                  (successful_searches (searchDuration (duration f)) (obs_of (e_searchObs env) i)))
         ids)))"
    using complete_schedule_exists by blast
  have "updates_scheduled f (env\<lparr>e_insertSched := s1, e_searchSched := s2\<rparr>)"
    using 1 2 by (simp add: updates_scheduled_def Let_def p_def ids_def)
  then show ?thesis by blast
qed

section \<open>Claim about failing operations\<close>

text \<open>
  Claim C2. When the call of an insertion or search pass returns an error, the worker
  logs a line with its number, its count of batches and the error, and goes on with
  the next pass, with its counts unchanged. Such failures end neither the worker nor
  the phase nor the run: whenever the set-up and tear-down calls succeed, the clocks
  pass the two deadlines and the scheduler lets the counter updates happen, the run
  visits every step, ends with the report and exits with status 0, however many of
  the calls of the workers fail, and every worker has logged the errors of its failed
  passes, in the order of its passes (the order between the lines of different workers
  is left open); and for every outcome of those calls there are schedules under which
  the updates do happen.
\<close>

theorem operation_failures_are_survived:
  "(ob_now ob < duration f \<and> currentBatchSize f p ob = Some n \<and> 0 \<le> n \<and> ob_result ob = Err e
      \<longrightarrow> insert_worker f p g (ob # obs) w
           = insert_worker f p g obs
               (w\<lparr>logged := logged w @ [InsertFailed g (batchCount w) e]\<rparr>))
   \<and> (ob_now ob < d \<and> ob_result ob = Err e
      \<longrightarrow> search_worker d g (ob # obs) w
           = search_worker d g obs
               (w\<lparr>logged := logged w @ [SearchFailed g (batchCount w) e]\<rparr>))
   \<and> (\<not> showHelp f \<and> setup_succeeds env \<and> deadlines_pass f env \<and> updates_scheduled f env
      \<longrightarrow> (\<exists>rep. outcome (run f env) = Finished rep)
        \<and> exit_status (outcome (run f env)) = Some 0
        \<and> visited (run f env) = steps_order
        \<and> map (map line_message) (stderr (run f env))
            = map (\<lambda>i. failure_messages (duration f) (obs_of (e_insertObs env) i))
                 [0 ..< nat (numConcurrentGoroutines (resolve_pressure (pressure f)))]
            @ map (\<lambda>i. failure_messages (searchDuration (duration f))
                                   (obs_of (e_searchObs env) i))
                 [0 ..< nat (numConcurrentGoroutines (resolve_pressure (pressure f)))])
   \<and> (\<not> showHelp f \<and> setup_succeeds env \<and> deadlines_pass f env
      \<longrightarrow> (\<exists>s1 s2 rep.
            outcome (run f (env\<lparr>e_insertSched := s1, e_searchSched := s2\<rparr>)) = Finished rep))"
proof (intro conjI impI)
  assume "ob_now ob < duration f \<and> currentBatchSize f p ob = Some n \<and> 0 \<le> n
            \<and> ob_result ob = Err e"
  then show "insert_worker f p g (ob # obs) w
           = insert_worker f p g obs
               (w\<lparr>logged := logged w @ [InsertFailed g (batchCount w) e]\<rparr>)"
    by simp
next
  assume "ob_now ob < d \<and> ob_result ob = Err e"
  then show "search_worker d g (ob # obs) w
           = search_worker d g obs
               (w\<lparr>logged := logged w @ [SearchFailed g (batchCount w) e]\<rparr>)"
    by simp
next
  assume a: "\<not> showHelp f \<and> setup_succeeds env \<and> deadlines_pass f env \<and> updates_scheduled f env"
  then have h: "\<not> showHelp f" "setup_succeeds env" "deadlines_pass f env"
      "updates_scheduled f env"
    by simp_all
  note r = run_finishes [OF h]
  from r(1) show fin: "\<exists>rep. outcome (run f env) = Finished rep" by blast
  from fin show "exit_status (outcome (run f env)) = Some 0" by auto
  show "visited (run f env) = steps_order" by (rule r(2))
  show "map (map line_message) (stderr (run f env))
            = map (\<lambda>i. failure_messages (duration f) (obs_of (e_insertObs env) i))
                 [0 ..< nat (numConcurrentGoroutines (resolve_pressure (pressure f)))]
            @ map (\<lambda>i. failure_messages (searchDuration (duration f))
                                   (obs_of (e_searchObs env) i))
                 [0 ..< nat (numConcurrentGoroutines (resolve_pressure (pressure f)))]"
    by (rule r(3))
next
  assume a: "\<not> showHelp f \<and> setup_succeeds env \<and> deadlines_pass f env"
  obtain s1 s2 where s: "updates_scheduled f (env\<lparr>e_insertSched := s1, e_searchSched := s2\<rparr>)"
    using schedules_exist by blast
  have h: "\<not> showHelp f" "setup_succeeds (env\<lparr>e_insertSched := s1, e_searchSched := s2\<rparr>)"
      "deadlines_pass f (env\<lparr>e_insertSched := s1, e_searchSched := s2\<rparr>)"
    using a by simp_all
  from run_finishes(1) [OF h s]
  show "\<exists>s1 s2 rep.
          outcome (run f (env\<lparr>e_insertSched := s1, e_searchSched := s2\<rparr>)) = Finished rep"
    by blast
qed

theorem operation_failures_are_survived_witness:
  "ob_now (example_obs ! 1) < duration example_flags
   \<and> currentBatchSize example_flags (resolve_pressure ''low'') (example_obs ! 1) = Some 500
   \<and> (0 :: int) \<le> 500 \<and> ob_result (example_obs ! 1) = Err ''timeout''
   \<and> insert_worker example_flags (resolve_pressure ''low'') 3
        (example_obs ! 1 # drop 2 example_obs) no_run
      = insert_worker example_flags (resolve_pressure ''low'') 3 (drop 2 example_obs)
          (no_run\<lparr>logged := logged no_run @ [InsertFailed 3 (batchCount no_run) ''timeout'']\<rparr>)
   \<and> ob_now (example_search_obs ! 1) < 250000000
   \<and> ob_result (example_search_obs ! 1) = Err ''unavailable''
   \<and> search_worker 250000000 3 (example_search_obs ! 1 # drop 2 example_search_obs) no_run
      = search_worker 250000000 3 (drop 2 example_search_obs)
          (no_run\<lparr>logged := logged no_run @ [SearchFailed 3 (batchCount no_run) ''unavailable'']\<rparr>)
   \<and> \<not> showHelp example_flags \<and> setup_succeeds example_env
   \<and> deadlines_pass example_flags example_env \<and> updates_scheduled example_flags example_env
   \<and> (\<exists>rep. outcome (run example_flags example_env) = Finished rep)
   \<and> exit_status (outcome (run example_flags example_env)) = Some 0
   \<and> visited (run example_flags example_env) = steps_order
   \<and> map (map line_message) (stderr (run example_flags example_env))
        = map (\<lambda>i. failure_messages (duration example_flags) (obs_of (e_insertObs example_env) i))
            [0 ..< nat (numConcurrentGoroutines (resolve_pressure (pressure example_flags)))]
        @ map (\<lambda>i. failure_messages (searchDuration (duration example_flags))
                        (obs_of (e_searchObs example_env) i))
            [0 ..< nat (numConcurrentGoroutines (resolve_pressure (pressure example_flags)))]
   \<and> (\<exists>s1 s2 rep. outcome (run example_flags
          (example_env\<lparr>e_insertSched := s1, e_searchSched := s2\<rparr>)) = Finished rep)"
proof -
  have i: "ob_now (example_obs ! 1) < duration example_flags
      \<and> currentBatchSize example_flags (resolve_pressure ''low'') (example_obs ! 1) = Some 500
      \<and> (0 :: int) \<le> 500 \<and> ob_result (example_obs ! 1) = Err ''timeout''"
    by code_simp
  have s: "ob_now (example_search_obs ! 1) < 250000000
      \<and> ob_result (example_search_obs ! 1) = Err ''unavailable''"
    by code_simp
  have r: "\<not> showHelp example_flags \<and> setup_succeeds example_env
      \<and> deadlines_pass example_flags example_env \<and> updates_scheduled example_flags example_env"
    by code_simp
  note t = operation_failures_are_survived [where f = example_flags
      and p = "resolve_pressure ''low''" and ob = "example_obs ! 1" and n = 500
      and e = "''timeout''" and g = 3 and obs = "drop 2 example_obs" and w = no_run
      and env = example_env]
  note u = operation_failures_are_survived [where f = example_flags
      and ob = "example_search_obs ! 1" and d = 250000000
      and e = "''unavailable''" and g = 3 and obs = "drop 2 example_search_obs" and w = no_run
      and env = example_env]
  from t i r have 1:
    "insert_worker example_flags (resolve_pressure ''low'') 3
        (example_obs ! 1 # drop 2 example_obs) no_run
      = insert_worker example_flags (resolve_pressure ''low'') 3 (drop 2 example_obs)
          (no_run\<lparr>logged := logged no_run @ [InsertFailed 3 (batchCount no_run) ''timeout'']\<rparr>)"
    "\<exists>rep. outcome (run example_flags example_env) = Finished rep"
    "exit_status (outcome (run example_flags example_env)) = Some 0"
    "visited (run example_flags example_env) = steps_order"
    "map (map line_message) (stderr (run example_flags example_env))
        = map (\<lambda>i. failure_messages (duration example_flags) (obs_of (e_insertObs example_env) i))
            [0 ..< nat (numConcurrentGoroutines (resolve_pressure (pressure example_flags)))]
        @ map (\<lambda>i. failure_messages (searchDuration (duration example_flags))
                        (obs_of (e_searchObs example_env) i))
            [0 ..< nat (numConcurrentGoroutines (resolve_pressure (pressure example_flags)))]"
    "\<exists>s1 s2 rep. outcome (run example_flags
          (example_env\<lparr>e_insertSched := s1, e_searchSched := s2\<rparr>)) = Finished rep"
    by blast+
  from u s have 2:
    "search_worker 250000000 3 (example_search_obs ! 1 # drop 2 example_search_obs) no_run
      = search_worker 250000000 3 (drop 2 example_search_obs)
          (no_run\<lparr>logged := logged no_run @ [SearchFailed 3 (batchCount no_run) ''unavailable'']\<rparr>)"
    by blast
  show ?thesis using i s r 1 2 by blast
qed


end
